theory Spec2Isabelle
  imports Complex_Main "HOL-Library.Sublist"
begin

section \<open>Strings of the source language\<close>

text \<open>
  The source is TypeScript. Its strings are modelled as \<open>string\<close> (lists of \<open>char\<close>), which
  covers the code units \<open>0x00\<close> to \<open>0xFF\<close>. The character classes below are the ECMAScript
  ones restricted to that range: \<open>\s\<close> (also the set removed by \<open>String.prototype.trim\<close>) is
  TAB, LF, VT, FF, CR, SPACE and NBSP; the line terminators are LF and CR.
\<close>

abbreviation LF :: char where "LF \<equiv> CHR 0x0A"
abbreviation CR :: char where "CR \<equiv> CHR 0x0D"
abbreviation TAB :: char where "TAB \<equiv> CHR 0x09"

definition isSpace :: "char \<Rightarrow> bool" where
  "isSpace c = (c = TAB \<or> c = LF \<or> c = CHR 0x0B \<or> c = CHR 0x0C \<or> c = CR
                 \<or> c = CHR '' '' \<or> c = CHR 0xA0)"

definition isLineTerminator :: "char \<Rightarrow> bool" where
  "isLineTerminator c = (c = LF \<or> c = CR)"

definition trim :: "string \<Rightarrow> string" where
  \<comment> \<open>\<open>String.prototype.trim\<close>\<close>
  "trim s = rev (dropWhile isSpace (rev (dropWhile isSpace s)))"

fun join :: "string \<Rightarrow> string list \<Rightarrow> string" where
  \<comment> \<open>\<open>Array.prototype.join\<close>\<close>
  "join sep [] = []"
| "join sep [x] = x"
| "join sep (x # y # ys) = x @ sep @ join sep (y # ys)"

definition startsWith :: "string \<Rightarrow> string \<Rightarrow> bool" where
  \<comment> \<open>\<open>s.startsWith(p)\<close>\<close>
  "startsWith s p = (take (length p) s = p)"


section \<open>File-type dispatch (\<open>handleFileUpload\<close> in App.tsx)\<close>

datatype strategy = PdfStrategy | ImageStrategy | PlainReadStrategy

datatype dispatch_error = UnsupportedFileType string

definition imageExtensions :: "string list" where
  "imageExtensions = [''jpg'', ''jpeg'', ''png'', ''tiff'', ''bmp'', ''gif'']"

definition selectStrategy :: "string \<Rightarrow> string \<Rightarrow> dispatch_error + strategy" where
  \<comment> \<open>the \<open>if / else if\<close> chain on \<open>file.type\<close> and \<open>fileExtension\<close>; the message of the
      thrown error interpolates \<open>file.type || fileExtension\<close>\<close>
  "selectStrategy fileType fileExtension =
     (if fileType = ''application/pdf'' \<or> fileExtension = ''pdf'' then Inr PdfStrategy
      else if startsWith fileType ''image/'' \<or> fileExtension \<in> set imageExtensions
        then Inr ImageStrategy
      else if fileType = ''text/plain'' \<or> fileExtension = ''txt'' then Inr PlainReadStrategy
      else Inl (UnsupportedFileType (if fileType \<noteq> [] then fileType else fileExtension)))"


section \<open>Recognition engine and image strategy (\<open>OCRService\<close>)\<close>

text \<open>
  Errors are values. Each constructor stands for one \<open>throw\<close> of the source or for one
  rejection of a library promise. \<open>ImageProcessingFailed\<close> and \<open>PdfProcessingFailed\<close> are
  the two \<open>catch\<close> blocks, which re-throw with the caught error interpolated into the
  message.
\<close>

datatype ocr_error =
    OcrInitFailed         \<comment> \<open>\<open>Failed to initialize OCR engine\<close>\<close>
  | WorkerNotAvailable    \<comment> \<open>\<open>OCR worker not available\<close>\<close>
  | RecognizeRejected     \<comment> \<open>\<open>worker.recognize\<close> rejects\<close>
  | NoTextInImage         \<comment> \<open>\<open>No text could be extracted from this image\<close>\<close>
  | ImageProcessingFailed ocr_error   \<comment> \<open>\<open>Image processing failed: ...\<close>\<close>
  | PdfLoadRejected       \<comment> \<open>\<open>getDocument\<close> rejects\<close>
  | RenderRejected        \<comment> \<open>\<open>page.render\<close> rejects\<close>
  | NoTextInPdf           \<comment> \<open>\<open>No text content could be extracted from this PDF\<close>\<close>
  | PdfProcessingFailed ocr_error     \<comment> \<open>\<open>PDF processing failed: ...\<close>\<close>

text \<open>
  Progress values are JavaScript numbers, that is IEEE 754 double-precision values. A finite
  double is a rational number, and the result of an arithmetic operation is the exact
  result rounded to the nearest double, to the one with an even significand in a tie.
  \<open>double\<close> is this rounding: 53 significant bits, with the fixed spacing \<open>2 powi - 1074\<close>
  of the subnormal range below \<open>2 powi - 1022\<close>. Results of magnitude \<open>2 powi 1024\<close> and
  more, which are \<open>Infinity\<close> in JavaScript, do not occur below: a progress value is at
  most \<open>100\<close>. \<open>ilog2 n\<close> is the position of the leading bit of \<open>n\<close>, and \<open>exponent x\<close> the
  integer \<open>e\<close> with \<open>2 powi e \<le> x < 2 powi (e + 1)\<close>.
\<close>

function ilog2 :: "int \<Rightarrow> int" where
  "ilog2 n = (if n < 2 then 0 else 1 + ilog2 (n div 2))"
  by auto
termination by (relation "measure nat") auto

declare ilog2.simps [simp del]

definition exponent :: "rat \<Rightarrow> int" where
  "exponent x = (case quotient_of x of (p, q) \<Rightarrow>
     (let d = ilog2 p - ilog2 q in if 2 powi d \<le> x then d else d - 1))"

definition roundHalfEven :: "rat \<Rightarrow> int" where
  "roundHalfEven x = (let f = \<lfloor>x\<rfloor>; d = x - of_int f
     in if d < 1 / 2 \<or> (d = 1 / 2 \<and> even f) then f else f + 1)"

definition double :: "rat \<Rightarrow> rat" where
  "double x = (if x = 0 then 0
     else (let u = 2 powi (max (exponent \<bar>x\<bar>) (- 1022) - 52)
           in sgn x * of_int (roundHalfEven (\<bar>x\<bar> / u)) * u))"

text \<open>
  A progress callback is a function object; it is identified by a number, and \<open>None\<close> is
  \<open>undefined\<close>. An event records one call of a callback with its argument, a double.
\<close>

type_synonym callback = nat
type_synonym event = "callback \<times> rat"

text \<open>
  The static field \<open>OCRService.worker\<close>: \<open>None\<close> is \<open>null\<close>; \<open>Some cb\<close> is a live worker
  whose \<open>logger\<close> closure captured \<open>onProgress = cb\<close> when the worker was created.
\<close>

type_synonym worker = "callback option option"

text \<open>What the recognition library does during one call of \<open>processImage\<close>.\<close>

record tesseract =
  createWorkerOk :: bool          \<comment> \<open>\<open>Tesseract.createWorker\<close> resolves (else rejects)\<close>
  recognizing :: "rat list"       \<comment> \<open>\<open>m.progress\<close> of the \<open>recognizing text\<close> log messages,
                                      doubles between 0 and 1\<close>
  recognized :: "string option"   \<comment> \<open>\<open>data.text\<close>, or \<open>None\<close> when \<open>recognize\<close> rejects\<close>

definition init :: "callback option \<Rightarrow> bool \<Rightarrow> worker \<Rightarrow> (ocr_error + unit) \<times> worker" where
  "init onProgress createOk w =
     (case w of
        Some lg \<Rightarrow> (Inr (), w)
      | None \<Rightarrow> if createOk then (Inr (), Some onProgress) else (Inl OcrInitFailed, None))"

definition logger :: "callback option \<Rightarrow> rat list \<Rightarrow> event list" where
  \<comment> \<open>\<open>if (m.status === 'recognizing text' && onProgress) onProgress(m.progress * 100)\<close>\<close>
  "logger lg ps = (case lg of None \<Rightarrow> [] | Some cb \<Rightarrow> map (\<lambda>p. (cb, double (p * 100))) ps)"

definition processImage ::
  "callback option \<Rightarrow> tesseract \<Rightarrow> worker \<Rightarrow> ((ocr_error + string) \<times> event list) \<times> worker" where
  "processImage onProgress t w =
     (case init onProgress (createWorkerOk t) w of
        (Inl e, w') \<Rightarrow> ((Inl e, []), w')
      | (Inr u, w') \<Rightarrow>
          (case w' of
             None \<Rightarrow> ((Inl WorkerNotAvailable, []), w')
           | Some lg \<Rightarrow>
               (case recognized t of
                  None \<Rightarrow> ((Inl (ImageProcessingFailed RecognizeRejected),
                             logger lg (recognizing t)), w')
                | Some text \<Rightarrow>
                    if text = [] \<or> length (trim text) = 0
                    then ((Inl (ImageProcessingFailed NoTextInImage),
                           logger lg (recognizing t)), w')
                    else ((Inr (trim text), logger lg (recognizing t)), w'))))"


section \<open>PDF strategy (\<open>OCRService.processPDF\<close>)\<close>

text \<open>
  One page of an opened document: the strings of its text items, whether
  \<open>canvas.getContext('2d')\<close> yields a context, whether \<open>page.render\<close> resolves, and what
  the recognition library does with the rendered image.
\<close>

record page =
  items :: "string list"
  hasContext :: bool
  renderOk :: bool
  ocr :: tesseract

definition pageText :: "page \<Rightarrow> string" where
  "pageText p = join '' '' (items p)"

definition progressEvent :: "callback option \<Rightarrow> nat \<Rightarrow> nat \<Rightarrow> event list" where
  \<comment> \<open>\<open>if (onProgress) onProgress((i / totalPages) * 100)\<close>\<close>
  "progressEvent onProgress i totalPages =
     (case onProgress of
        None \<Rightarrow> []
      | Some cb \<Rightarrow> [(cb, double (double (of_nat i / of_nat totalPages) * 100))])"

text \<open>
  The \<open>for\<close> loop, from page \<open>i\<close> on: the state is \<open>textPages\<close>, \<open>hasTextContent\<close> and the
  worker; an error leaves the loop at once.
\<close>

fun pdfLoop ::
  "callback option \<Rightarrow> nat \<Rightarrow> nat \<Rightarrow> page list \<Rightarrow> string list \<Rightarrow> bool \<Rightarrow> worker
     \<Rightarrow> ((ocr_error + string list \<times> bool) \<times> event list) \<times> worker" where
  "pdfLoop onProgress totalPages i [] textPages hasTextContent w =
     ((Inr (textPages, hasTextContent), []), w)"
| "pdfLoop onProgress totalPages i (p # ps) textPages hasTextContent w =
     (if length (trim (pageText p)) > 20 then
        (case pdfLoop onProgress totalPages (i + 1) ps (textPages @ [pageText p]) True w of
           ((r, evs), w') \<Rightarrow> ((r, progressEvent onProgress i totalPages @ evs), w'))
      else if \<not> hasContext p then
        (case pdfLoop onProgress totalPages (i + 1) ps textPages hasTextContent w of
           ((r, evs), w') \<Rightarrow> ((r, progressEvent onProgress i totalPages @ evs), w'))
      else if \<not> renderOk p then ((Inl RenderRejected, []), w)
      else
        (case processImage None (ocr p) w of
           ((Inl e, evs1), w1) \<Rightarrow> ((Inl e, evs1), w1)
         | ((Inr text, evs1), w1) \<Rightarrow>
             (case (if text \<noteq> [] \<and> length (trim text) > 0
                    then pdfLoop onProgress totalPages (i + 1) ps
                           (textPages @ [trim text]) True w1
                    else pdfLoop onProgress totalPages (i + 1) ps
                           textPages hasTextContent w1) of
                ((r, evs), w') \<Rightarrow>
                  ((r, evs1 @ progressEvent onProgress i totalPages @ evs), w'))))"


text \<open>A file is \<open>None\<close> when \<open>getDocument\<close> rejects, else the pages of the document.\<close>

definition processPDF ::
  "callback option \<Rightarrow> page list option \<Rightarrow> worker
     \<Rightarrow> ((ocr_error + string) \<times> event list) \<times> worker" where
  "processPDF onProgress file w =
     (case file of
        None \<Rightarrow> ((Inl (PdfProcessingFailed PdfLoadRejected), []), w)
      | Some pages \<Rightarrow>
          (case pdfLoop onProgress (length pages) 1 pages [] False w of
             ((Inl e, evs), w') \<Rightarrow> ((Inl (PdfProcessingFailed e), evs), w')
           | ((Inr (textPages, hasTextContent), evs), w') \<Rightarrow>
               if \<not> hasTextContent then ((Inl (PdfProcessingFailed NoTextInPdf), evs), w')
               else ((Inr (join [LF, LF] textPages), evs), w')))"



definition scannedPage :: "rat list \<Rightarrow> string option \<Rightarrow> page" where
  "scannedPage ps r = \<lparr>items = [], hasContext = True, renderOk = True,
     ocr = \<lparr>createWorkerOk = True, recognizing = ps, recognized = r\<rparr>\<rparr>"

section \<open>Regular expressions of the source\<close>

text \<open>
  The regular expressions of \<open>AIService\<close> are alternatives of sequences of the items below:
  assertions (\<open>^\<close> and \<open>$\<close> with the \<open>m\<close> flag, \<open>^\<close> without it, \<open>\b\<close>), one character of a
  class, and a greedy repetition of a class with a lower bound (\<open>+\<close> is \<open>Rep c 1\<close>, \<open>*\<close> is
  \<open>Rep c 0\<close>, \<open>{3,}\<close> is \<open>Rep c 3\<close>). The matcher is the backtracking matcher of ECMAScript
  for this fragment: alternatives are tried in order, a repetition first takes as many
  characters as it can and gives them back one at a time while the rest of the sequence
  fails. A match is the list of the texts matched by the items, in order.
\<close>

datatype cclass =
    Chr char          \<comment> \<open>a literal character\<close>
  | OneOf string      \<comment> \<open>\<open>[...]\<close>\<close>
  | Space             \<comment> \<open>\<open>\s\<close>\<close>
  | Digit             \<comment> \<open>\<open>\d\<close>\<close>
  | Dot               \<comment> \<open>\<open>.\<close>: any character but a line terminator\<close>

datatype item =
    LineStart         \<comment> \<open>\<open>^\<close> with the \<open>m\<close> flag\<close>
  | LineEnd           \<comment> \<open>\<open>$\<close> with the \<open>m\<close> flag\<close>
  | InputStart        \<comment> \<open>\<open>^\<close> without the \<open>m\<close> flag\<close>
  | WordBoundary      \<comment> \<open>\<open>\b\<close>\<close>
  | One cclass
  | Rep cclass nat

type_synonym regex = "item list list"

definition isDigit :: "char \<Rightarrow> bool" where
  "isDigit c = (c \<in> set ''0123456789'')"

definition isWordChar :: "char \<Rightarrow> bool" where
  \<comment> \<open>\<open>\w\<close>, for \<open>\b\<close>\<close>
  "isWordChar c = (c \<in> set ''abcdefghijklmnopqrstuvwxyz''
                    \<or> c \<in> set ''ABCDEFGHIJKLMNOPQRSTUVWXYZ'' \<or> isDigit c \<or> c = CHR ''_'')"

fun inClass :: "cclass \<Rightarrow> char \<Rightarrow> bool" where
  "inClass (Chr a) c = (c = a)"
| "inClass (OneOf as) c = (c \<in> set as)"
| "inClass Space c = isSpace c"
| "inClass Digit c = isDigit c"
| "inClass Dot c = (\<not> isLineTerminator c)"

text \<open>The assertions look at the character before the position (\<open>None\<close> at the start of
  the input) and at the rest of the input.\<close>

definition atLineStart :: "char option \<Rightarrow> bool" where
  "atLineStart prev = (case prev of None \<Rightarrow> True | Some c \<Rightarrow> isLineTerminator c)"

definition atLineEnd :: "string \<Rightarrow> bool" where
  "atLineEnd s = (case s of [] \<Rightarrow> True | c # cs \<Rightarrow> isLineTerminator c)"

definition atWordBoundary :: "char option \<Rightarrow> string \<Rightarrow> bool" where
  "atWordBoundary prev s =
     ((case prev of None \<Rightarrow> False | Some c \<Rightarrow> isWordChar c)
        \<noteq> (case s of [] \<Rightarrow> False | c # cs \<Rightarrow> isWordChar c))"

definition lastOr :: "char option \<Rightarrow> string \<Rightarrow> char option" where
  \<comment> \<open>the character before the position reached after \<open>s\<close> has been consumed\<close>
  "lastOr prev s = (if s = [] then prev else Some (last s))"

fun firstSome :: "'a option list \<Rightarrow> 'a option" where
  "firstSome [] = None"
| "firstSome (None # xs) = firstSome xs"
| "firstSome (Some x # xs) = Some x"

fun countdown :: "nat \<Rightarrow> nat \<Rightarrow> nat list" where
  \<comment> \<open>\<open>hi, hi - 1, ..., lo\<close>: the lengths a greedy repetition tries\<close>
  "countdown hi lo = (if hi < lo then [] else if hi = lo then [lo]
                      else hi # countdown (hi - 1) lo)"

declare countdown.simps [simp del]

fun matchSeq :: "item list \<Rightarrow> char option \<Rightarrow> string \<Rightarrow> string list option" where
  "matchSeq [] prev s = Some []"
| "matchSeq (LineStart # its) prev s =
     (if atLineStart prev then map_option (Cons []) (matchSeq its prev s) else None)"
| "matchSeq (LineEnd # its) prev s =
     (if atLineEnd s then map_option (Cons []) (matchSeq its prev s) else None)"
| "matchSeq (InputStart # its) prev s =
     (if prev = None then map_option (Cons []) (matchSeq its prev s) else None)"
| "matchSeq (WordBoundary # its) prev s =
     (if atWordBoundary prev s then map_option (Cons []) (matchSeq its prev s) else None)"
| "matchSeq (One c # its) prev s =
     (case s of
        [] \<Rightarrow> None
      | x # xs \<Rightarrow> if inClass c x then map_option (Cons [x]) (matchSeq its (Some x) xs)
                  else None)"
| "matchSeq (Rep c n # its) prev s =
     firstSome (map (\<lambda>k. map_option (Cons (take k s))
                            (matchSeq its (lastOr prev (take k s)) (drop k s)))
                    (countdown (length (takeWhile (inClass c) s)) n))"

definition matchAt :: "regex \<Rightarrow> char option \<Rightarrow> string \<Rightarrow> string list option" where
  "matchAt re prev s = firstSome (map (\<lambda>its. matchSeq its prev s) re)"

text \<open>
  The replacement text: literal text and the texts of items of the match (\<open>$1\<close>, \<open>$2\<close> are
  the items that the groups enclose).
\<close>

datatype repl = Lit string | Piece nat

fun expand :: "repl list \<Rightarrow> string list \<Rightarrow> string" where
  "expand [] ms = []"
| "expand (Lit t # rs) ms = t @ expand rs ms"
| "expand (Piece i # rs) ms = (if i < length ms then ms ! i else []) @ expand rs ms"

text \<open>
  \<open>s.replace(re, r)\<close> with the \<open>g\<close> flag: matches are looked for from left to right, each
  search starting where the last match ended (one character further after an empty
  match). The first argument counts the characters of the current match still to skip.
\<close>

fun replaceFrom :: "regex \<Rightarrow> repl list \<Rightarrow> nat \<Rightarrow> char option \<Rightarrow> string \<Rightarrow> string" where
  "replaceFrom re r (Suc k) prev [] = []"
| "replaceFrom re r (Suc k) prev (c # cs) = replaceFrom re r k (Some c) cs"
| "replaceFrom re r 0 prev [] =
     (case matchAt re prev [] of None \<Rightarrow> [] | Some ms \<Rightarrow> expand r ms)"
| "replaceFrom re r 0 prev (c # cs) =
     (case matchAt re prev (c # cs) of
        None \<Rightarrow> c # replaceFrom re r 0 (Some c) cs
      | Some ms \<Rightarrow>
          (if length (concat ms) = 0 then expand r ms @ c # replaceFrom re r 0 (Some c) cs
           else expand r ms @ replaceFrom re r (length (concat ms) - 1) (Some c) cs))"

definition replaceAll :: "regex \<Rightarrow> repl list \<Rightarrow> string \<Rightarrow> string" where
  "replaceAll re r s = replaceFrom re r 0 None s"

text \<open>\<open>s.replace(re, r)\<close> without the \<open>g\<close> flag replaces the leftmost match only.\<close>

fun replaceFirstFrom :: "regex \<Rightarrow> repl list \<Rightarrow> char option \<Rightarrow> string \<Rightarrow> string" where
  "replaceFirstFrom re r prev [] =
     (case matchAt re prev [] of None \<Rightarrow> [] | Some ms \<Rightarrow> expand r ms)"
| "replaceFirstFrom re r prev (c # cs) =
     (case matchAt re prev (c # cs) of
        None \<Rightarrow> c # replaceFirstFrom re r (Some c) cs
      | Some ms \<Rightarrow> expand r ms @ drop (length (concat ms)) (c # cs))"

definition replaceFirst :: "regex \<Rightarrow> repl list \<Rightarrow> string \<Rightarrow> string" where
  "replaceFirst re r s = replaceFirstFrom re r None s"

text \<open>\<open>re.test(s)\<close>: there is a match at some position.\<close>

fun testFrom :: "regex \<Rightarrow> char option \<Rightarrow> string \<Rightarrow> bool" where
  "testFrom re prev [] = (matchAt re prev [] \<noteq> None)"
| "testFrom re prev (c # cs) = (matchAt re prev (c # cs) \<noteq> None \<or> testFrom re (Some c) cs)"

definition test :: "regex \<Rightarrow> string \<Rightarrow> bool" where
  "test re s = testFrom re None s"

text \<open>\<open>s.split(sep)\<close> for a non-empty separator; the second argument is the piece being
  read.\<close>

function splitFrom :: "string \<Rightarrow> string \<Rightarrow> string \<Rightarrow> string list" where
  "splitFrom sep cur s =
     (if s = [] then [cur]
      else if sep \<noteq> [] \<and> take (length sep) s = sep
        then cur # splitFrom sep [] (drop (length sep) s)
      else splitFrom sep (cur @ [hd s]) (tl s))"
  by pat_completeness auto
termination
  by (relation "measure (\<lambda>(sep, cur, s). length s)") auto

definition split :: "string \<Rightarrow> string \<Rightarrow> string list" where
  "split sep s = splitFrom sep [] s"

section \<open>Local transform (\<open>AIService.localProcessing\<close>)\<close>

definition reCRLF :: regex where
  \<comment> \<open>\<open>/\r\n/g\<close>\<close>
  "reCRLF = [[One (Chr CR), One (Chr LF)]]"

definition reNewlines3 :: regex where
  \<comment> \<open>\<open>/\n{3,}/g\<close>\<close>
  "reNewlines3 = [[Rep (Chr LF) 3]]"

definition reBlanks :: regex where
  \<comment> \<open>\<open>/[ \t]+/g\<close>\<close>
  "reBlanks = [[Rep (OneOf [CHR '' '', TAB]) 1]]"

definition reLineEdges :: regex where
  \<comment> \<open>\<open>/^\s+|\s+$/gm\<close>\<close>
  "reLineEdges = [[LineStart, Rep Space 1], [Rep Space 1, LineEnd]]"

definition reHeading :: regex where
  \<comment> \<open>\<open>/^(#+)\s*(.*)$/gm\<close>; \<open>$2\<close> is the text of item 3\<close>
  "reHeading = [[LineStart, Rep (Chr (CHR ''#'')) 1, Rep Space 0, Rep Dot 0, LineEnd]]"

definition reNewlines2 :: regex where
  \<comment> \<open>\<open>/\n{2,}/g\<close>\<close>
  "reNewlines2 = [[Rep (Chr LF) 2]]"

definition reBullet :: regex where
  \<comment> \<open>\<open>/^\s*[-*]\s+/gm\<close>\<close>
  "reBullet = [[LineStart, Rep Space 0, One (OneOf ''-*''), Rep Space 1]]"

definition reNumbered :: regex where
  \<comment> \<open>\<open>/\b(\d+)\.\s+/g\<close>; \<open>$1\<close> is the text of item 1\<close>
  "reNumbered = [[WordBoundary, Rep Digit 1, One (Chr (CHR ''.'')), Rep Space 1]]"

definition reListStart :: regex where
  \<comment> \<open>\<open>/^\s*[-*]\s+/\<close>, without flags\<close>
  "reListStart = [[InputStart, Rep Space 0, One (OneOf ''-*''), Rep Space 1]]"

definition convertToMarkdown :: "string \<Rightarrow> string" where
  "convertToMarkdown text1 =
     trim (replaceAll reNumbered [Piece 1, Lit ''. '']
       (replaceAll reBullet [Lit ''- '']
         (replaceAll reNewlines2 [Lit [LF, LF]]
           (replaceAll reHeading [Lit ''# '', Piece 3] text1))))"

definition listItem :: "string \<Rightarrow> string" where
  \<comment> \<open>the body of the inner \<open>for\<close> loop\<close>
  "listItem line = ''  <li>'' @ replaceFirst reListStart [] line @ ''</li>'' @ [LF]"

definition htmlBlock :: "string \<Rightarrow> string" where
  \<comment> \<open>what one iteration of the outer \<open>for\<close> loop appends to \<open>html\<close>\<close>
  "htmlBlock para =
     (if trim para = [] then []
      else if test reListStart para then
        ''<ul>'' @ [LF]
          @ concat (map listItem (filter (\<lambda>line. trim line \<noteq> []) (split [LF] para)))
          @ ''</ul>'' @ [LF]
      else ''<p>'' @ para @ ''</p>'' @ [LF])"

definition convertToHTML :: "string \<Rightarrow> string" where
  "convertToHTML text1 = concat (map htmlBlock (split [LF, LF] text1))"

definition normalize :: "string \<Rightarrow> string" where
  \<comment> \<open>the chain of \<open>replace\<close> calls and the \<open>trim\<close> that starts \<open>localProcessing\<close>\<close>
  "normalize text1 =
     trim (replaceAll reLineEdges []
       (replaceAll reBlanks [Lit '' '']
         (replaceAll reNewlines3 [Lit [LF, LF]]
           (replaceAll reCRLF [Lit [LF]] text1))))"

definition localProcessing :: "string \<Rightarrow> string \<Rightarrow> string" where
  "localProcessing text1 format =
     (if format = ''markdown'' then convertToMarkdown (normalize text1)
      else if format = ''html'' then convertToHTML (normalize text1)
      else normalize text1)"


section \<open>Formatting dispatcher (\<open>AIService.callProvider\<close>)\<close>

record provider_profile =
  name :: string
  endpoint :: string
  defaultModel :: string
  requiresKey :: bool

definition Providers :: "string \<rightharpoonup> provider_profile" where
  \<comment> \<open>the own keys of the \<open>Providers\<close> object; the property names that a plain object
      inherits (\<open>constructor\<close>, \<open>toString\<close>, ...), for which the code finds a value
      without \<open>requiresKey\<close>, are not provider names here\<close>
  "Providers =
     [''groq'' \<mapsto> \<lparr>name = ''Groq'',
         endpoint = ''https://api.groq.com/openai/v1/chat/completions'',
         defaultModel = ''llama-3.3-70b-versatile'', requiresKey = True\<rparr>,
      ''deepseek'' \<mapsto> \<lparr>name = ''DeepSeek'',
         endpoint = ''https://router.huggingface.co/v1'',
         defaultModel = ''deepseek-ai/DeepSeek-V3.2-Exp:novita'', requiresKey = True\<rparr>,
      ''huggingface'' \<mapsto> \<lparr>name = ''Hugging Face'',
         endpoint = ''https://api-inference.huggingface.co/models/'',
         defaultModel = ''google/flan-t5-base'', requiresKey = True\<rparr>,
      ''openai'' \<mapsto> \<lparr>name = ''OpenAI'',
         endpoint = ''https://api.openai.com/v1/chat/completions'',
         defaultModel = ''gpt-3.5-turbo'', requiresKey = True\<rparr>,
      ''local'' \<mapsto> \<lparr>name = ''Local (No API)'',
         endpoint = '''', defaultModel = '''', requiresKey = False\<rparr>]"

record settings =
  provider :: string
  apiKey :: string
  model :: string
  customUrl :: string
  customHeader :: string
  saveKey :: bool

text \<open>
  The network is a function from the request that \<open>fetch\<close> sends to what comes of it: the
  abort of the timeout, another failure (a rejected \<open>fetch\<close> or a response that is not
  \<open>ok\<close>, with the message of the error that the code throws for it), or the text that the
  code reads from the decoded body. A call returns its result and its effects in order:
  the calls of the progress callback and the requests sent.
\<close>

datatype request =
    ChatRequest string string string string
      \<comment> \<open>URL, bearer token, model, content of the user message; timeout 30 s\<close>
  | InferenceRequest string string string
      \<comment> \<open>URL, bearer token, \<open>inputs\<close>; timeout 45 s\<close>

datatype response = Aborted | Failed string | Decoded string

datatype effect = Progress rat | Fetch request

datatype ai_error =
    InvalidProvider           \<comment> \<open>\<open>Invalid provider selected\<close>\<close>
  | ApiKeyRequired string     \<comment> \<open>\<open>API key required for <name>. ...\<close>\<close>
  | RequestTimeout            \<comment> \<open>\<open>Request timeout - please try again\<close>\<close>
  | RequestFailed string

definition report :: "bool \<Rightarrow> rat \<Rightarrow> effect list" where
  \<comment> \<open>\<open>if (onProgress) onProgress(v)\<close>\<close>
  "report onProgress v = (if onProgress then [Progress v] else [])"

definition enhancePromptForFormat :: "string \<Rightarrow> string \<Rightarrow> string" where
  \<comment> \<open>for the four own keys of \<open>formatInstructions\<close> and for formats that name no inherited
      property of a plain object\<close>
  "enhancePromptForFormat prompt format =
     (let instruction =
        (if format = ''markdown'' then
           ''Format the output as clean Markdown with proper headings, lists, and emphasis.''
         else if format = ''html'' then
           ''Convert to clean HTML with proper semantic tags. Use paragraphs, lists, and tables where appropriate.''
         else if format = ''latex'' then
           ''Convert to LaTeX format with proper document structure, sections, and mathematical notation if needed.''
         else if format = ''text'' then
           ''Output clean, well-formatted plain text with proper paragraphs and spacing.''
         else [])
      in if instruction \<noteq> [] then prompt @ [LF, LF] @ instruction else prompt)"

definition answer :: "bool \<Rightarrow> request \<Rightarrow> response \<Rightarrow> (ai_error + string) \<times> effect list" where
  \<comment> \<open>the \<open>try\<close> block around \<open>fetch\<close> in both remote calls\<close>
  "answer onProgress req resp =
     (case resp of
        Aborted \<Rightarrow> (Inl RequestTimeout, [Fetch req])
      | Failed msg \<Rightarrow> (Inl (RequestFailed msg), [Fetch req])
      | Decoded t \<Rightarrow> (Inr t, Fetch req # report onProgress 90))"

definition callOpenAICompatible ::
  "(request \<Rightarrow> response) \<Rightarrow> bool \<Rightarrow> string \<Rightarrow> string \<Rightarrow> string \<Rightarrow> string \<Rightarrow> string \<Rightarrow> string
     \<Rightarrow> (ai_error + string) \<times> effect list" where
  "callOpenAICompatible net onProgress url mdl key prompt userText format =
     (let req = ChatRequest url key mdl
           (enhancePromptForFormat prompt format @ [LF, LF] @ ''Text to process:'' @ [LF]
              @ userText)
      in answer onProgress req (net req))"

definition callDeepSeek ::
  "(request \<Rightarrow> response) \<Rightarrow> bool \<Rightarrow> string \<Rightarrow> string \<Rightarrow> string \<Rightarrow> string \<Rightarrow> string \<Rightarrow> string
     \<Rightarrow> (ai_error + string) \<times> effect list" where
  "callDeepSeek net onProgress url mdl key prompt userText format =
     callOpenAICompatible net onProgress (url @ ''/chat/completions'') mdl key prompt userText
       format"

definition callHuggingFace ::
  "(request \<Rightarrow> response) \<Rightarrow> bool \<Rightarrow> string \<Rightarrow> string \<Rightarrow> string \<Rightarrow> string \<Rightarrow> string \<Rightarrow> string
     \<Rightarrow> (ai_error + string) \<times> effect list" where
  "callHuggingFace net onProgress url mdl key prompt userText format =
     (let req = InferenceRequest (url @ mdl) key
           (enhancePromptForFormat prompt format @ [LF, LF] @ ''Text to format:'' @ [LF]
              @ userText @ [LF, LF] @ ''Formatted text:'')
      in answer onProgress req (net req))"

definition callProvider ::
  "(request \<Rightarrow> response) \<Rightarrow> bool \<Rightarrow> settings \<Rightarrow> string \<Rightarrow> string \<Rightarrow> string
     \<Rightarrow> (ai_error + string) \<times> effect list" where
  "callProvider net onProgress s prompt userText format =
     (if provider s = [] \<or> provider s = ''local'' then
        (Inr (localProcessing userText format), [])
      else
        (case Providers (provider s) of
           None \<Rightarrow> (Inl InvalidProvider, [])
         | Some config \<Rightarrow>
             if requiresKey config \<and> apiKey s = [] then (Inl (ApiKeyRequired (name config)), [])
             else
               (let mdl = (if model s \<noteq> [] then model s else defaultModel config);
                    url = (if customUrl s \<noteq> [] then customUrl s else endpoint config);
                    (r, effs) =
                      (if provider s = ''deepseek'' then
                         callDeepSeek net onProgress url mdl (apiKey s) prompt userText format
                       else if provider s = ''huggingface'' then
                         callHuggingFace net onProgress url mdl (apiKey s) prompt userText format
                       else
                         callOpenAICompatible net onProgress url mdl (apiKey s) prompt userText
                           format)
                in (case r of
                      Inl e \<Rightarrow> (Inl e, report onProgress 10 @ effs @ report onProgress 0)
                    | Inr t \<Rightarrow> (Inr t, report onProgress 10 @ effs)))))"

definition requests :: "effect list \<Rightarrow> request list" where
  "requests effs = concat (map (\<lambda>e. case e of Fetch r \<Rightarrow> [r] | Progress v \<Rightarrow> []) effs)"


section \<open>Initialization of the engine by several callers\<close>

text \<open>
  \<open>OCRService.init\<close> runs without interruption up to its \<open>await\<close>: it tests the worker field
  and, when the field is \<open>null\<close>, starts \<open>Tesseract.createWorker\<close>. It resumes when the
  promise settles: it stores the worker, or it sets the field to \<open>null\<close> and throws. Calls by
  several callers interleave at these two points. The state counts the calls of
  \<open>createWorker\<close>.
\<close>

datatype caller = NotCalled | Awaiting "callback option" | Returned | Threw

record engine =
  workerField :: worker
  created :: nat
  callers :: "nat \<Rightarrow> caller"

datatype init_event =
    Call nat "callback option"   \<comment> \<open>caller \<open>i\<close> calls \<open>init(onProgress)\<close>\<close>
  | Resolve nat                  \<comment> \<open>the \<open>createWorker\<close> promise of caller \<open>i\<close> resolves\<close>
  | Reject nat                   \<comment> \<open>the \<open>createWorker\<close> promise of caller \<open>i\<close> rejects\<close>

fun initStep :: "init_event \<Rightarrow> engine \<Rightarrow> engine" where
  "initStep (Call i cb) e =
     (if callers e i \<noteq> NotCalled then e
      else if workerField e \<noteq> None then e\<lparr>callers := (callers e)(i := Returned)\<rparr>
      else e\<lparr>created := created e + 1, callers := (callers e)(i := Awaiting cb)\<rparr>)"
| "initStep (Resolve i) e =
     (case callers e i of
        Awaiting cb \<Rightarrow> e\<lparr>workerField := Some cb, callers := (callers e)(i := Returned)\<rparr>
      | _ \<Rightarrow> e)"
| "initStep (Reject i) e =
     (case callers e i of
        Awaiting cb \<Rightarrow> e\<lparr>workerField := None, callers := (callers e)(i := Threw)\<rparr>
      | _ \<Rightarrow> e)"

fun initRun :: "init_event list \<Rightarrow> engine \<Rightarrow> engine" where
  "initRun [] e = e"
| "initRun (ev # evs) e = initRun evs (initStep ev e)"

definition idle :: engine where
  "idle = \<lparr>workerField = None, created = 0, callers = (\<lambda>i. NotCalled)\<rparr>"

section \<open>What the line-edge expression does, run by run\<close>

text \<open>
  A description of \<open>replace(/^\s+|\s+$/gm, '')\<close> by runs of whitespace, used to reason about
  \<open>normalize\<close>; it is proved equal to the replacement by the matcher. A run at the start of
  the input or of a line, and a run at the end of the input, is removed. Any other run
  (\<open>reduceRun\<close>) stays as it is when it has no line terminator; else it is removed when the
  last line terminator in it follows another one, and reduced to that last line terminator
  otherwise.
\<close>

definition reduceRun :: "string \<Rightarrow> string" where
  "reduceRun w =
     (case dropWhile (\<lambda>c. \<not> isLineTerminator c) (rev w) of
        [] \<Rightarrow> w
      | l # before \<Rightarrow>
          (case before of
             [] \<Rightarrow> [l]
           | x # xs \<Rightarrow> if isLineTerminator x then [] else [l]))"

function edges :: "bool \<Rightarrow> string \<Rightarrow> string" where
  "edges lineStart s =
     (if s = [] then []
      else if \<not> isSpace (hd s) then hd s # edges False (tl s)
      else (if lineStart \<or> dropWhile isSpace s = [] then []
            else reduceRun (takeWhile isSpace s))
           @ edges False (dropWhile isSpace s))"
  by pat_completeness auto
termination
proof (relation "measure (\<lambda>(lineStart, s). length s)")
  fix lineStart :: bool and s :: string
  assume "s \<noteq> []" and "\<not> \<not> isSpace (hd s)"
  then obtain c cs where "s = c # cs" "isSpace c" by (cases s) auto
  then have "length (dropWhile isSpace s) \<le> length cs"
    by (simp add: length_dropWhile_le)
  with \<open>s = c # cs\<close> show "((False, dropWhile isSpace s), (lineStart, s))
      \<in> measure (\<lambda>(lineStart, s). length s)"
    by simp
qed auto

declare edges.simps [simp del]

text \<open>
  Two properties of strings for the fixed points of \<open>normalize\<close>: every line terminator
  stands between two characters that are not whitespace and the string neither begins nor
  ends with whitespace (\<open>edged\<close>); there is no tab and no two spaces in a row
  (\<open>singleBlanks\<close>).
\<close>

definition isolated :: "char \<Rightarrow> char \<Rightarrow> bool" where
  "isolated x y = ((\<not> isLineTerminator x \<or> \<not> isSpace y) \<and> (\<not> isLineTerminator y \<or> \<not> isSpace x))"

definition edged :: "string \<Rightarrow> bool" where
  "edged s = ((s = [] \<or> (\<not> isSpace (hd s) \<and> \<not> isSpace (last s))) \<and> successively isolated s)"

definition notTwoSpaces :: "char \<Rightarrow> char \<Rightarrow> bool" where
  "notTwoSpaces x y = (x \<noteq> CHR '' '' \<or> y \<noteq> CHR '' '')"

definition singleBlanks :: "string \<Rightarrow> bool" where
  "singleBlanks s = (TAB \<notin> set s \<and> successively notTwoSpaces s)"

definition blank :: "char \<Rightarrow> bool" where
  \<comment> \<open>the class \<open>[ \t]\<close>\<close>
  "blank c = (c = CHR '' '' \<or> c = TAB)"

section \<open>Properties of strings for the Markdown conversion\<close>

text \<open>
  Notions used to reason about \<open>convertToMarkdown\<close>. \<open>ctx\<close> is the character before a
  position as a string. \<open>tidy\<close> says of a string after a given character that no line
  terminator touches whitespace, that there is no tab and no two spaces in a row, and that
  it does not begin with whitespace when it begins the input. \<open>trailing\<close> says that it can
  end with whitespace only by ending with a hash and one space. \<open>everywhere\<close> lifts a
  property of a position (the character before it and the rest of the string) to all
  positions. \<open>shaped\<close> describes a match that consists of a marker, whitespace and text of
  the same line, and is replaced by a marker, one space and that text.
\<close>

definition ctx :: "char option \<Rightarrow> string" where
  "ctx prev = (case prev of None \<Rightarrow> [] | Some c \<Rightarrow> [c])"

definition tidy :: "char option \<Rightarrow> string \<Rightarrow> bool" where
  "tidy prev s =
     (successively isolated (ctx prev @ s) \<and> successively notTwoSpaces (ctx prev @ s)
      \<and> TAB \<notin> set s \<and> (prev \<noteq> None \<or> s = [] \<or> \<not> isSpace (hd s)))"

definition trailing :: "char option \<Rightarrow> string \<Rightarrow> bool" where
  "trailing prev s = (s = [] \<or> \<not> isSpace (last s) \<or> (\<exists>m. ctx prev @ s = m @ ''# ''))"

definition everywhere :: "(char option \<Rightarrow> string \<Rightarrow> bool) \<Rightarrow> char option \<Rightarrow> string \<Rightarrow> bool" where
  "everywhere P prev s = (\<forall>ys zs. s = ys @ zs \<longrightarrow> P (lastOr prev ys) zs)"

definition shaped :: "repl list \<Rightarrow> string \<Rightarrow> string list \<Rightarrow> bool" where
  "shaped r s ms =
     (\<exists>u0 w v u tail.
        s = u0 @ w @ v @ tail \<and> concat ms = u0 @ w @ v \<and> expand r ms = u @ '' '' @ v
        \<and> u0 \<noteq> [] \<and> (\<forall>c\<in>set u0. \<not> isSpace c) \<and> u \<noteq> [] \<and> (\<forall>c\<in>set u. \<not> isSpace c)
        \<and> (\<forall>c\<in>set w. isSpace c)
        \<and> (v = [] \<longrightarrow> tail = [] \<or> \<not> isSpace (hd tail))
        \<and> (v \<noteq> [] \<longrightarrow> \<not> isSpace (hd v) \<and> (\<forall>c\<in>set v. \<not> isLineTerminator c))
        \<and> (v = [] \<and> tail = [] \<longrightarrow> last u = CHR ''#'' \<or> (w \<noteq> [] \<and> last u0 \<noteq> CHR ''#'')))"

definition isHash :: "char \<Rightarrow> bool" where
  "isHash c = (c = CHR ''#'')"

definition isBullet :: "char \<Rightarrow> bool" where
  "isBullet c = (c = CHR ''-'' \<or> c = CHR ''*'')"

definition rewriting :: "regex \<Rightarrow> repl list \<Rightarrow> bool" where
  \<comment> \<open>every match of the expression in a tidy string is \<open>shaped\<close>\<close>
  "rewriting re r =
     (\<forall>prev s ms. tidy prev s \<and> matchAt re prev s = Some ms \<longrightarrow> shaped r s ms)"

text \<open>
  The canonical forms that the replacements of \<open>convertToMarkdown\<close> produce. A line marker
  (a \<open>#\<close>, or a bullet followed by white space) at the start of a line is the single
  character \<open>k0\<close>, one space, and then text or the end of the string. A number with a full
  stop and white space after it, at a word boundary, has one space and then text or the end
  of the string.
\<close>

definition lineMarker :: "(char \<Rightarrow> bool) \<Rightarrow> bool \<Rightarrow> char \<Rightarrow> char option \<Rightarrow> string \<Rightarrow> bool" where
  "lineMarker K always k0 prev zs =
     (atLineStart prev \<and> zs \<noteq> [] \<and> K (hd zs) \<and> (always \<or> (tl zs \<noteq> [] \<and> isSpace (hd (tl zs))))
      \<longrightarrow> (\<exists>rest. zs = k0 # CHR '' '' # rest \<and> (rest = [] \<or> \<not> isSpace (hd rest))))"

definition numberMarker :: "char option \<Rightarrow> string \<Rightarrow> bool" where
  "numberMarker prev zs =
     (atWordBoundary prev zs \<and> zs \<noteq> [] \<and> isDigit (hd zs)
        \<and> (\<exists>xs. dropWhile isDigit zs = CHR ''.'' # xs \<and> xs \<noteq> [] \<and> isSpace (hd xs))
      \<longrightarrow> (\<exists>rest. dropWhile isDigit zs = CHR ''.'' # CHR '' '' # rest
                  \<and> (rest = [] \<or> \<not> isSpace (hd rest))))"


section \<open>Properties\<close>

subsection \<open>Trimming\<close>

lemma trim_decomp:
  "\<exists>a b. s = a @ trim s @ b \<and> (\<forall>c\<in>set a. isSpace c) \<and> (\<forall>c\<in>set b. isSpace c)"
proof -
  let ?d = "dropWhile isSpace s"
  let ?a = "takeWhile isSpace s"
  let ?b = "rev (takeWhile isSpace (rev ?d))"
  have 1: "s = ?a @ ?d" by simp
  have "rev ?d = takeWhile isSpace (rev ?d) @ dropWhile isSpace (rev ?d)" by simp
  then have "?d = rev (dropWhile isSpace (rev ?d)) @ ?b"
    by (metis rev_append rev_rev_ident)
  then have 2: "?d = trim s @ ?b" by (simp add: trim_def)
  have 3: "\<forall>c\<in>set ?a. isSpace c" by (meson set_takeWhileD)
  have 4: "\<forall>c\<in>set ?b. isSpace c" by (metis set_rev set_takeWhileD)
  from 1 2 have "s = ?a @ trim s @ ?b" by simp
  with 3 4 show ?thesis by blast
qed

lemma trim_hd: "trim s \<noteq> [] \<Longrightarrow> \<not> isSpace (hd (trim s))"
proof -
  assume n: "trim s \<noteq> []"
  let ?d = "dropWhile isSpace s"
  have dn: "?d \<noteq> []" using n by (auto simp: trim_def dest: set_dropWhileD)
  then have h: "\<not> isSpace (hd ?d)" by (rule hd_dropWhile)
  obtain b where b: "?d = trim s @ b"
    unfolding trim_def
    by (metis append_take_drop_id rev_append rev_rev_ident takeWhile_dropWhile_id)
  with n have "hd ?d = hd (trim s)" by (metis hd_append2)
  with h show ?thesis by simp
qed

lemma trim_last: "trim s \<noteq> [] \<Longrightarrow> \<not> isSpace (last (trim s))"
proof -
  assume n: "trim s \<noteq> []"
  let ?r = "dropWhile isSpace (rev (dropWhile isSpace s))"
  have rn: "?r \<noteq> []" using n by (simp add: trim_def)
  then have "\<not> isSpace (hd ?r)" by (rule hd_dropWhile)
  moreover have "last (trim s) = hd ?r" using rn by (simp add: trim_def last_rev)
  ultimately show ?thesis by simp
qed

lemma trim_nonempty: "(trim s \<noteq> []) = (\<exists>c\<in>set s. \<not> isSpace c)"
proof
  assume "trim s \<noteq> []"
  then have "\<not> isSpace (hd (trim s))" "hd (trim s) \<in> set (trim s)" by (simp_all add: trim_hd)
  moreover obtain a b where "s = a @ trim s @ b" using trim_decomp by blast
  ultimately show "\<exists>c\<in>set s. \<not> isSpace c" by (metis in_set_conv_decomp append.assoc Un_iff set_append)
next
  assume e: "\<exists>c\<in>set s. \<not> isSpace c"
  obtain a b where ab: "s = a @ trim s @ b" "\<forall>c\<in>set a. isSpace c" "\<forall>c\<in>set b. isSpace c"
    using trim_decomp by blast
  show "trim s \<noteq> []"
  proof
    assume "trim s = []"
    with ab have "\<forall>c\<in>set s. isSpace c" by (metis Un_iff append_Nil set_append)
    with e show False by blast
  qed
qed


subsection \<open>Image strategy\<close>

text \<open>
  Claim C10. When the recognition result of an image contains a character that is not
  whitespace (and the engine is available: it is live already or its creation succeeds),
  \<open>processImage\<close> returns the recognized text with the leading and the trailing whitespace
  removed: the returned string is not empty, neither begins nor ends with whitespace, and
  the recognized text is that string between two runs of whitespace.
\<close>

theorem processImage_returns_trimmed:
  assumes "recognized t = Some text"
    and "\<exists>c\<in>set text. \<not> isSpace c"
    and "w \<noteq> None \<or> createWorkerOk t"
  shows "\<exists>r a b. fst (fst (processImage onProgress t w)) = Inr r
           \<and> r \<noteq> [] \<and> \<not> isSpace (hd r) \<and> \<not> isSpace (last r)
           \<and> text = a @ r @ b \<and> (\<forall>c\<in>set a. isSpace c) \<and> (\<forall>c\<in>set b. isSpace c)"
proof -
  from assms(2) have n: "trim text \<noteq> []" by (simp add: trim_nonempty)
  then have t: "text \<noteq> []" by (auto simp: trim_def)
  from assms(1,3) n t have "fst (fst (processImage onProgress t w)) = Inr (trim text)"
    by (cases w) (auto simp: processImage_def init_def)
  moreover obtain a b where "text = a @ trim text @ b"
      "\<forall>c\<in>set a. isSpace c" "\<forall>c\<in>set b. isSpace c"
    using trim_decomp by blast
  ultimately show ?thesis using n trim_hd trim_last by blast
qed

theorem processImage_returns_trimmed_witness:
  "recognized \<lparr>createWorkerOk = True, recognizing = [], recognized = Some '' Hi there ''\<rparr>
      = Some '' Hi there ''
   \<and> (\<exists>c\<in>set '' Hi there ''. \<not> isSpace c)
   \<and> (\<exists>r a b. fst (fst (processImage None
          \<lparr>createWorkerOk = True, recognizing = [], recognized = Some '' Hi there ''\<rparr> None))
          = Inr r
        \<and> r \<noteq> [] \<and> \<not> isSpace (hd r) \<and> \<not> isSpace (last r)
        \<and> '' Hi there '' = a @ r @ b \<and> (\<forall>c\<in>set a. isSpace c) \<and> (\<forall>c\<in>set b. isSpace c))"
proof -
  let ?t = "\<lparr>createWorkerOk = True, recognizing = [], recognized = Some '' Hi there ''\<rparr>"
  have 1: "recognized ?t = Some '' Hi there ''" by simp
  have 2: "\<exists>c\<in>set '' Hi there ''. \<not> isSpace c" by (simp add: isSpace_def)
  have 3: "(None :: worker) \<noteq> None \<or> createWorkerOk ?t" by simp
  show ?thesis
    using 1 2 processImage_returns_trimmed [OF 1 2 3, of None] by blast
qed

subsection \<open>Dispatch\<close>

text \<open>
  Claim C1. Strategy selection is a total function of the declared MIME type and the file
  extension alone, and picks exactly one outcome in the priority order PDF, image, plain
  read, unsupported; the unsupported outcome carries the MIME type, or the extension when
  the MIME type is empty.
\<close>

theorem selectStrategy_priority:
  "selectStrategy mime ext =
     (if mime = ''application/pdf'' \<or> ext = ''pdf'' then Inr PdfStrategy
      else if prefix ''image/'' mime
              \<or> ext \<in> {''jpg'', ''jpeg'', ''png'', ''tiff'', ''bmp'', ''gif''}
        then Inr ImageStrategy
      else if mime = ''text/plain'' \<or> ext = ''txt'' then Inr PlainReadStrategy
      else Inl (UnsupportedFileType (if mime = [] then ext else mime)))"
proof -
  have p: "startsWith mime ''image/'' = prefix ''image/'' mime"
    unfolding startsWith_def prefix_def
    by (metis append_eq_conv_conj)
  have m: "(ext \<in> set imageExtensions)
             = (ext \<in> {''jpg'', ''jpeg'', ''png'', ''tiff'', ''bmp'', ''gif''})"
    by (simp add: imageExtensions_def)
  show ?thesis
    unfolding selectStrategy_def p m by simp
qed

subsection \<open>PDF strategy: pages recognized as blank\<close>



subsection \<open>PDF strategy: structure of the page loop\<close>



subsection \<open>PDF strategy: a page that is skipped\<close>



subsection \<open>PDF strategy: no text in the whole document\<close>






subsection \<open>PDF strategy: an error on one page\<close>





subsection \<open>PDF strategy: scanned documents\<close>

text \<open>
  Claim C3 at a two-page scanned document (no native text on either page) whose first page
  is recognized as empty text and whose second page is recognized as \<open>hello\<close>. The claim
  gives the text \<open>hello\<close>, the join of the non-empty page results. The code fails:
  \<open>processImage\<close> throws on the empty result of the first page, so the test for a non-empty
  page result in the loop never sees an empty one, and the second page is not reached.
\<close>

theorem processPDF_scanned_blank_page:
  "fst (fst (processPDF None
      (Some [scannedPage [] (Some ''''), scannedPage [] (Some ''hello'')]) None))
     = Inl (PdfProcessingFailed (ImageProcessingFailed NoTextInImage))
   \<and> fst (fst (processPDF None (Some [scannedPage [] (Some ''hello'')]) None))
     = Inr ''hello''"
  by (simp add: processPDF_def scannedPage_def pageText_def trim_def isSpace_def
      processImage_def init_def logger_def progressEvent_def)

subsection \<open>Rounding to a double\<close>











lemma double_third:
  "double (double (1 / 3) * 100) = 2345624805922133 / 70368744177664"
  by code_simp

subsection \<open>PDF strategy: progress\<close>















subsection \<open>Formatting dispatcher\<close>

text \<open>
  Claim C7. For a configuration whose provider is a key of \<open>Providers\<close> other than \<open>local\<close>,
  with a profile that requires a key, and whose \<open>apiKey\<close> is empty, \<open>callProvider\<close> fails with
  the error \<open>API key required for <name>\<close> and has no effect at all: no request is sent and
  the progress callback is not called.
\<close>

theorem callProvider_missing_key:
  assumes "Providers (provider s) = Some config"
    and "provider s \<noteq> ''local''"
    and "requiresKey config"
    and "apiKey s = []"
  shows "callProvider net onProgress s prompt userText format
           = (Inl (ApiKeyRequired (name config)), [])"
proof -
  have "provider s \<noteq> []"
    using assms(1) by (auto simp: Providers_def)
  with assms show ?thesis
    by (simp add: callProvider_def)
qed

theorem callProvider_missing_key_witness:
  "callProvider (\<lambda>req. Decoded ''ok'') True
      \<lparr>provider = ''groq'', apiKey = '''', model = '''', customUrl = '''', customHeader = '''',
        saveKey = False\<rparr> ''Fix the layout'' ''some text'' ''text''
     = (Inl (ApiKeyRequired ''Groq''), [])"
  using callProvider_missing_key [of
      "\<lparr>provider = ''groq'', apiKey = '''', model = '''', customUrl = '''', customHeader = '''',
        saveKey = False\<rparr>"
      "\<lparr>name = ''Groq'', endpoint = ''https://api.groq.com/openai/v1/chat/completions'',
        defaultModel = ''llama-3.3-70b-versatile'', requiresKey = True\<rparr>"
      "\<lambda>req. Decoded ''ok''" True "''Fix the layout''" "''some text''" "''text''"]
  by (simp add: Providers_def)

subsection \<open>Local transform at concrete inputs\<close>

text \<open>
  Claim C8 at its input, \<open>- a\n- b\n\nSecond para\<close>, with provider \<open>local\<close> and format
  \<open>html\<close>. The claim gives a list of two items followed by a paragraph. The code returns
  one list whose second item is \<open>bSecond para\<close>: in \<open>/^\s+|\s+$/gm\<close> the class \<open>\s\<close> also
  matches line feeds, so the blank line between the blocks is removed before
  \<open>convertToHTML\<close> splits at blank lines. On the unnormalized input \<open>convertToHTML\<close> gives the
  two blocks of the claim.
\<close>

theorem local_html_blocks_merged:
  "callProvider net onProgress
      \<lparr>provider = ''local'', apiKey = '''', model = '''', customUrl = '''', customHeader = '''',
        saveKey = False\<rparr> prompt
      (''- a'' @ [LF] @ ''- b'' @ [LF, LF] @ ''Second para'') ''html''
     = (Inr (''<ul>'' @ [LF] @ ''  <li>a</li>'' @ [LF] @ ''  <li>bSecond para</li>'' @ [LF]
              @ ''</ul>'' @ [LF]), [])
   \<and> normalize (''- a'' @ [LF] @ ''- b'' @ [LF, LF] @ ''Second para'')
     = ''- a'' @ [LF] @ ''- bSecond para''
   \<and> convertToHTML (''- a'' @ [LF] @ ''- b'' @ [LF, LF] @ ''Second para'')
     = (''<ul>'' @ [LF] @ ''  <li>a</li>'' @ [LF] @ ''  <li>b</li>'' @ [LF] @ ''</ul>'' @ [LF])
         @ (''<p>Second para</p>'' @ [LF])"
proof -
  have n: "normalize (''- a'' @ [LF] @ ''- b'' @ [LF, LF] @ ''Second para'')
     = ''- a'' @ [LF] @ ''- bSecond para''"
    by code_simp
  have l: "localProcessing (''- a'' @ [LF] @ ''- b'' @ [LF, LF] @ ''Second para'') ''html''
     = ''<ul>'' @ [LF] @ ''  <li>a</li>'' @ [LF] @ ''  <li>bSecond para</li>'' @ [LF]
              @ ''</ul>'' @ [LF]"
    by code_simp
  have c: "convertToHTML (''- a'' @ [LF] @ ''- b'' @ [LF, LF] @ ''Second para'')
     = (''<ul>'' @ [LF] @ ''  <li>a</li>'' @ [LF] @ ''  <li>b</li>'' @ [LF] @ ''</ul>'' @ [LF])
         @ (''<p>Second para</p>'' @ [LF])"
    by code_simp
  show ?thesis
    using l n c by (simp add: callProvider_def)
qed

subsection \<open>Initialization of the engine by several callers\<close>

lemma initStep_live:
  assumes "workerField e \<noteq> None" and "\<forall>i cb. callers e i \<noteq> Awaiting cb"
  shows "workerField (initStep ev e) = workerField e \<and> created (initStep ev e) = created e
         \<and> (\<forall>i cb. callers (initStep ev e) i \<noteq> Awaiting cb)"
proof (cases ev)
  case (Call i cb)
  with assms show ?thesis by auto
next
  case (Resolve i)
  with assms show ?thesis by (cases "callers e i") auto
next
  case (Reject i)
  with assms show ?thesis by (cases "callers e i") auto
qed

text \<open>
  Claim C9, as the code has it. The only guard of \<open>init\<close> is the test of the worker field,
  and the field is set when \<open>createWorker\<close> has resolved. A call by a caller starts an
  initialization exactly when the field is \<open>null\<close> at that moment, also when another
  initialization is in flight. Once a worker is live and no initialization is in flight, no
  sequence of later calls starts another one and the worker stays the same.
\<close>

theorem init_starts_when_field_null:
  "(callers e i = NotCalled \<longrightarrow>
      created (initStep (Call i cb) e)
        = (if workerField e = None then created e + 1 else created e))
   \<and> (workerField e \<noteq> None \<and> (\<forall>j c. callers e j \<noteq> Awaiting c) \<longrightarrow>
        created (initRun evs e) = created e \<and> workerField (initRun evs e) = workerField e)"
proof -
  have "workerField e \<noteq> None \<Longrightarrow> \<forall>j c. callers e j \<noteq> Awaiting c \<Longrightarrow>
        created (initRun evs e) = created e \<and> workerField (initRun evs e) = workerField e"
  proof (induction evs arbitrary: e)
    case Nil
    show ?case by simp
  next
    case (Cons ev evs)
    from initStep_live [OF Cons.prems, of ev]
    have s: "workerField (initStep ev e) = workerField e" "created (initStep ev e) = created e"
        "\<forall>i cb. callers (initStep ev e) i \<noteq> Awaiting cb"
      by simp_all
    from Cons.prems(1) s(1) have "workerField (initStep ev e) \<noteq> None" by simp
    from Cons.IH [OF this s(3)] s(1,2) show ?case by simp
  qed
  then show ?thesis by simp
qed

theorem init_starts_when_field_null_witness:
  "created (initStep (Call 0 None) idle) = 1
   \<and> created (initRun [Call 1 None, Call 2 (Some 5), Resolve 1]
        (initRun [Call 0 None, Resolve 0] idle)) = 1
   \<and> workerField (initRun [Call 1 None, Call 2 (Some 5), Resolve 1]
        (initRun [Call 0 None, Resolve 0] idle)) = Some None"
  using init_starts_when_field_null [of idle 0 None "[]"]
    init_starts_when_field_null [of "initRun [Call 0 None, Resolve 0] idle" 0 None
      "[Call 1 None, Call 2 (Some 5), Resolve 1]"]
  by (simp add: idle_def)

theorem init_concurrent_counterexample:
  "created (initRun [Call 0 None, Call 1 None] idle) = 2
   \<and> callers (initRun [Call 0 None, Call 1 None] idle) 0 = Awaiting None
   \<and> callers (initRun [Call 0 None, Call 1 None] idle) 1 = Awaiting None
   \<and> created (initRun [Call 0 None, Call 1 None, Resolve 0, Resolve 1] idle) = 2"
  by (simp add: idle_def)

subsection \<open>The matcher\<close>

lemma firstSome_countdown_None:
  assumes "\<forall>k. lo \<le> k \<and> k \<le> hi \<longrightarrow> g k = None"
  shows "firstSome (map g (countdown hi lo)) = None"
  using assms
proof (induction hi lo rule: countdown.induct)
  case (1 hi lo)
  show ?case
  proof (cases "hi < lo")
    case True
    then show ?thesis by (subst countdown.simps) simp
  next
    case False
    show ?thesis
    proof (cases "hi = lo")
      case True
      with "1.prems" show ?thesis by (subst countdown.simps) simp
    next
      case neq: False
      have "\<forall>k. lo \<le> k \<and> k \<le> hi - 1 \<longrightarrow> g k = None"
        using "1.prems" by (metis diff_le_self le_trans)
      then have "firstSome (map g (countdown (hi - 1) lo)) = None"
        by (rule "1.IH" [OF False neq])
      moreover have "g hi = None" using "1.prems" False by auto
      ultimately show ?thesis
        using False neq by (subst countdown.simps) simp
    qed
  qed
qed

lemma firstSome_countdown_Some:
  assumes "lo \<le> k" and "k \<le> hi" and "g k = Some v"
    and "\<forall>j. k < j \<and> j \<le> hi \<longrightarrow> g j = None"
  shows "firstSome (map g (countdown hi lo)) = Some v"
  using assms
proof (induction hi lo rule: countdown.induct)
  case (1 hi lo)
  have nlt: "\<not> hi < lo" using "1.prems" by auto
  show ?case
  proof (cases "hi = lo")
    case True
    with "1.prems" have "k = lo" by auto
    with True "1.prems" show ?thesis by (subst countdown.simps) simp
  next
    case neq: False
    show ?thesis
    proof (cases "k = hi")
      case True
      with "1.prems" nlt neq show ?thesis by (subst countdown.simps) simp
    next
      case False
      with "1.prems" have khi: "k \<le> hi - 1" "g hi = None" by auto
      have "\<forall>j. k < j \<and> j \<le> hi - 1 \<longrightarrow> g j = None"
        using "1.prems"(4) by (metis diff_le_self le_trans)
      then have "firstSome (map g (countdown (hi - 1) lo)) = Some v"
        by (rule "1.IH" [OF nlt neq "1.prems"(1) khi(1) "1.prems"(3)])
      with khi(2) nlt neq show ?thesis by (subst countdown.simps) simp
    qed
  qed
qed

lemma replaceFrom_skip:
  "k \<le> length s \<Longrightarrow>
     replaceFrom re r k prev s = replaceFrom re r 0 (lastOr prev (take k s)) (drop k s)"
proof (induction k arbitrary: prev s)
  case 0
  show ?case by (simp add: lastOr_def)
next
  case (Suc k)
  then obtain c cs where s: "s = c # cs" by (cases s) auto
  with Suc.prems have "k \<le> length cs" by simp
  from Suc.IH [OF this, of "Some c"] s show ?case
    by (simp add: lastOr_def)
qed

lemma replaceFrom_match:
  assumes "matchAt re prev s = Some ms" and "length (concat ms) = n" and "0 < n"
    and "n \<le> length s"
  shows "replaceFrom re r 0 prev s
           = expand r ms @ replaceFrom re r 0 (Some (s ! (n - 1))) (drop n s)"
proof -
  from assms obtain c cs where s: "s = c # cs" by (cases s) auto
  have k: "n - 1 \<le> length cs" using assms(4) s by simp
  have "replaceFrom re r 0 prev s = expand r ms @ replaceFrom re r (n - 1) (Some c) cs"
    using assms(1,2,3) s by simp
  also have "replaceFrom re r (n - 1) (Some c) cs
      = replaceFrom re r 0 (lastOr (Some c) (take (n - 1) cs)) (drop (n - 1) cs)"
    by (rule replaceFrom_skip [OF k])
  also have "drop (n - 1) cs = drop n s" using assms(3) s by (cases n) simp_all
  also have "lastOr (Some c) (take (n - 1) cs) = Some (s ! (n - 1))"
  proof (cases "n - 1")
    case 0
    then show ?thesis using s by (simp add: lastOr_def)
  next
    case (Suc m)
    then have "take (n - 1) cs \<noteq> []" using k by auto
    moreover have "last (take (n - 1) cs) = cs ! m"
      using Suc k by (simp add: take_Suc_conv_app_nth)
    ultimately show ?thesis using s Suc by (simp add: lastOr_def)
  qed
  finally show ?thesis .
qed

lemma replaceFrom_nomatch:
  "matchAt re prev (c # cs) = None \<Longrightarrow>
     replaceFrom re r 0 prev (c # cs) = c # replaceFrom re r 0 (Some c) cs"
  by simp

lemma replaceFrom_no_match_anywhere:
  assumes "\<forall>ys zs. s = ys @ zs \<longrightarrow> matchAt re (lastOr prev ys) zs = None"
  shows "replaceFrom re r 0 prev s = s"
  using assms
proof (induction s arbitrary: prev)
  case Nil
  then have "matchAt re prev [] = None" by (simp add: lastOr_def)
  then show ?case by simp
next
  case (Cons c cs)
  have m: "matchAt re prev (c # cs) = None"
    using Cons.prems [rule_format, of "[]" "c # cs"] by (simp add: lastOr_def)
  have "\<forall>ys zs. cs = ys @ zs \<longrightarrow> matchAt re (lastOr (Some c) ys) zs = None"
  proof (intro allI impI)
    fix ys zs assume "cs = ys @ zs"
    then have "c # cs = (c # ys) @ zs" by simp
    from Cons.prems [rule_format, OF this] show "matchAt re (lastOr (Some c) ys) zs = None"
      by (simp add: lastOr_def split: if_splits)
  qed
  from Cons.IH [OF this] m show ?case by simp
qed

subsection \<open>The line-edge expression\<close>

lemma inClass_Space: "inClass Space = isSpace"
  by (rule ext) simp

lemma lineTerminator_isSpace: "isLineTerminator c \<Longrightarrow> isSpace c"
  by (auto simp: isLineTerminator_def isSpace_def)

lemma firstSome_whole_run:
  "firstSome (map (\<lambda>k. Some (g k)) (countdown n (Suc 0)))
     = (if Suc 0 \<le> n then Some (g n) else None)"
proof (cases "Suc 0 \<le> n")
  case True
  have "firstSome (map (\<lambda>k. Some (g k)) (countdown n (Suc 0))) = Some (g n)"
    by (rule firstSome_countdown_Some [of "Suc 0" n n]) (use True in auto)
  with True show ?thesis by simp
next
  case False
  then show ?thesis by (subst countdown.simps) simp
qed

lemma take_length_takeWhile: "take (length (takeWhile P s)) s = takeWhile P s"
  by (metis append_eq_conv_conj takeWhile_dropWhile_id)

lemma drop_length_takeWhile: "drop (length (takeWhile P s)) s = dropWhile P s"
  by (metis append_eq_conv_conj takeWhile_dropWhile_id)

lemma matchSeq_lineStart_run:
  "matchSeq [LineStart, Rep Space (Suc 0)] prev s
     = (if atLineStart prev \<and> s \<noteq> [] \<and> isSpace (hd s) then Some [[], takeWhile isSpace s]
        else None)"
proof -
  let ?n = "length (takeWhile isSpace s)"
  have n: "(Suc 0 \<le> ?n) = (s \<noteq> [] \<and> isSpace (hd s))"
    by (cases s) auto
  have "(\<lambda>k. map_option ((#) (take k s)) (matchSeq [] (lastOr prev (take k s)) (drop k s)))
          = (\<lambda>k. Some [take k s])"
    by (rule ext) simp
  then have "matchSeq [Rep Space (Suc 0)] prev s
          = firstSome (map (\<lambda>k. Some [take k s]) (countdown ?n (Suc 0)))"
    by (simp only: matchSeq.simps(7) inClass_Space)
  also have "\<dots> = (if Suc 0 \<le> ?n then Some [take ?n s] else None)"
    by (rule firstSome_whole_run)
  finally have "matchSeq [Rep Space (Suc 0)] prev s
      = (if s \<noteq> [] \<and> isSpace (hd s) then Some [takeWhile isSpace s] else None)"
    by (simp only: n take_length_takeWhile)
  then show ?thesis
    by (simp only: matchSeq.simps(2)) simp
qed

lemma matchSeq_run_lineEnd:
  "matchSeq [Rep Space (Suc 0), LineEnd] prev s
     = firstSome (map (\<lambda>k. if atLineEnd (drop k s) then Some [take k s, []] else None)
                      (countdown (length (takeWhile isSpace s)) (Suc 0)))"
proof -
  have "(\<lambda>k. map_option ((#) (take k s))
               (matchSeq [LineEnd] (lastOr prev (take k s)) (drop k s)))
        = (\<lambda>k. if atLineEnd (drop k s) then Some [take k s, []] else None)"
    by (rule ext) simp
  then show ?thesis
    by (simp only: matchSeq.simps(7) inClass_Space)
qed

lemma firstSome_single: "firstSome [x] = x"
  by (cases x) simp_all

lemma reLineEdges_Suc:
  "reLineEdges = [[LineStart, Rep Space (Suc 0)], [Rep Space (Suc 0), LineEnd]]"
  by (simp add: reLineEdges_def)

lemma matchAt_edges:
  "matchAt reLineEdges prev s
     = (if atLineStart prev \<and> s \<noteq> [] \<and> isSpace (hd s) then Some [[], takeWhile isSpace s]
        else firstSome (map (\<lambda>k. if atLineEnd (drop k s) then Some [take k s, []] else None)
                      (countdown (length (takeWhile isSpace s)) (Suc 0))))"
  unfolding matchAt_def reLineEdges_Suc list.map matchSeq_lineStart_run matchSeq_run_lineEnd
  by (simp add: firstSome_single)

lemma matchAt_edges_nonspace:
  assumes "s = [] \<or> \<not> isSpace (hd s)"
  shows "matchAt reLineEdges prev s = None"
proof -
  have z: "length (takeWhile isSpace s) = 0" using assms by (cases s) auto
  have "countdown 0 (Suc 0) = []" by (subst countdown.simps) simp
  then show ?thesis
    unfolding matchAt_edges z using assms by auto
qed

lemma run_split:
  assumes "\<forall>c\<in>set w. P c" and "rest = [] \<or> \<not> P (hd rest)"
  shows "takeWhile P (w @ rest) = w" and "dropWhile P (w @ rest) = rest"
proof -
  have "takeWhile P rest = []" "dropWhile P rest = rest"
    using assms(2) by (cases rest; simp)+
  with assms(1) show "takeWhile P (w @ rest) = w" "dropWhile P (w @ rest) = rest"
    by simp_all
qed

lemma not_lineEnd_inside:
  assumes "j \<le> length w" and "rest \<noteq> []" and "\<not> isLineTerminator (hd rest)"
    and "\<forall>c\<in>set w. \<not> isLineTerminator c"
  shows "\<not> atLineEnd (drop j (w @ rest))"
proof (cases "drop j w")
  case Nil
  with assms(1,2,3) show ?thesis
    by (cases rest) (auto simp: atLineEnd_def)
next
  case (Cons x xs)
  then have "x \<in> set w" by (metis in_set_dropD list.set_intros(1))
  with assms(4) Cons assms(1) show ?thesis
    by (auto simp: atLineEnd_def)
qed

lemma edgesF_Nil: "replaceFrom reLineEdges r 0 prev [] = []"
  by (simp add: matchAt_edges_nonspace [of "[]"])

lemma edgesF_nonspace:
  "\<not> isSpace c \<Longrightarrow>
     replaceFrom reLineEdges r 0 prev (c # cs) = c # replaceFrom reLineEdges r 0 (Some c) cs"
  by (simp add: matchAt_edges_nonspace)

lemma edgesF_indep:
  assumes "s = [] \<or> \<not> isSpace (hd s)"
  shows "replaceFrom reLineEdges r 0 p s = replaceFrom reLineEdges r 0 p' s"
proof (cases s)
  case Nil
  then show ?thesis by (simp only: edgesF_Nil)
next
  case (Cons c cs)
  with assms have "\<not> isSpace c" by simp
  then show ?thesis unfolding Cons by (simp add: edgesF_nonspace del: replaceFrom.simps)
qed

lemma edgesF_lineStart:
  assumes "atLineStart prev" and "s \<noteq> []" and "isSpace (hd s)"
  shows "replaceFrom reLineEdges [] 0 prev s
           = replaceFrom reLineEdges [] 0 p' (dropWhile isSpace s)"
proof -
  let ?w = "takeWhile isSpace s"
  have m: "matchAt reLineEdges prev s = Some [[], ?w]"
    using assms by (simp add: matchAt_edges)
  have n: "0 < length ?w" using assms(2,3) by (cases s) auto
  have le: "length ?w \<le> length s" by (rule length_takeWhile_le)
  have "replaceFrom reLineEdges [] 0 prev s
      = expand [] [[], ?w]
        @ replaceFrom reLineEdges [] 0 (Some (s ! (length ?w - 1))) (drop (length ?w) s)"
    by (rule replaceFrom_match [OF m _ n le]) simp
  also have "\<dots> = replaceFrom reLineEdges [] 0 (Some (s ! (length ?w - 1)))
      (dropWhile isSpace s)"
    by (simp add: drop_length_takeWhile)
  also have "\<dots> = replaceFrom reLineEdges [] 0 p' (dropWhile isSpace s)"
    by (rule edgesF_indep) (metis hd_dropWhile)
  finally show ?thesis .
qed

lemma matchAt_edges_inner_None:
  assumes "\<not> atLineStart prev"
    and "\<forall>k. Suc 0 \<le> k \<and> k \<le> length (takeWhile isSpace s) \<longrightarrow> \<not> atLineEnd (drop k s)"
  shows "matchAt reLineEdges prev s = None"
proof -
  have "firstSome (map (\<lambda>k. if atLineEnd (drop k s) then Some [take k s, []] else None)
                      (countdown (length (takeWhile isSpace s)) (Suc 0))) = None"
    by (rule firstSome_countdown_None) (use assms(2) in auto)
  with assms(1) show ?thesis by (simp add: matchAt_edges)
qed

lemma matchAt_edges_inner_Some:
  assumes "\<not> atLineStart prev"
    and "Suc 0 \<le> k" and "k \<le> length (takeWhile isSpace s)" and "atLineEnd (drop k s)"
    and "\<forall>j. k < j \<and> j \<le> length (takeWhile isSpace s) \<longrightarrow> \<not> atLineEnd (drop j s)"
  shows "matchAt reLineEdges prev s = Some [take k s, []]"
proof -
  have "firstSome (map (\<lambda>k. if atLineEnd (drop k s) then Some [take k s, []] else None)
                      (countdown (length (takeWhile isSpace s)) (Suc 0)))
          = Some [take k s, []]"
    by (rule firstSome_countdown_Some [OF assms(2,3)]) (use assms(4,5) in auto)
  with assms(1) show ?thesis by (simp add: matchAt_edges)
qed

lemma edgesF_trailing:
  assumes "\<not> atLineStart prev" and "s \<noteq> []" and "\<forall>c\<in>set s. isSpace c"
  shows "replaceFrom reLineEdges [] 0 prev s = []"
proof -
  have w: "takeWhile isSpace s = s" using assms(3) by simp
  have n: "0 < length s" using assms(2) by simp
  have k1: "Suc 0 \<le> length s" using assms(2) by (cases s) simp_all
  have k2: "length s \<le> length (takeWhile isSpace s)" by (simp only: w)
  have k3: "atLineEnd (drop (length s) s)" by (simp add: atLineEnd_def)
  have k4: "\<forall>j. length s < j \<and> j \<le> length (takeWhile isSpace s) \<longrightarrow> \<not> atLineEnd (drop j s)"
    by (simp only: w) auto
  have m: "matchAt reLineEdges prev s = Some [take (length s) s, []]"
    by (rule matchAt_edges_inner_Some [OF assms(1) k1 k2 k3 k4])
  have "replaceFrom reLineEdges [] 0 prev s
      = expand [] [take (length s) s, []]
        @ replaceFrom reLineEdges [] 0 (Some (s ! (length s - 1))) (drop (length s) s)"
    by (rule replaceFrom_match [OF m _ n]) simp_all
  then show ?thesis by (simp add: edgesF_Nil del: replaceFrom.simps)
qed

lemma edgesF_plain_run:
  assumes "\<not> atLineStart prev"
    and "\<forall>c\<in>set w. isSpace c \<and> \<not> isLineTerminator c"
    and "rest \<noteq> []" and "\<not> isSpace (hd rest)"
  shows "replaceFrom reLineEdges [] 0 prev (w @ rest)
           = w @ replaceFrom reLineEdges [] 0 p' rest"
  using assms(1,2)
proof (induction w arbitrary: prev)
  case Nil
  show ?case using assms(4) edgesF_indep [of rest "[]" prev p'] by (simp del: replaceFrom.simps)
next
  case (Cons c w)
  have nl: "\<not> isLineTerminator (hd rest)"
    using assms(4) lineTerminator_isSpace by blast
  have tw: "takeWhile isSpace ((c # w) @ rest) = c # w"
    by (rule run_split(1)) (use Cons.prems(2) assms(4) in auto)
  have "matchAt reLineEdges prev ((c # w) @ rest) = None"
  proof (rule matchAt_edges_inner_None [OF Cons.prems(1)], intro allI impI)
    fix k assume k: "Suc 0 \<le> k \<and> k \<le> length (takeWhile isSpace ((c # w) @ rest))"
    then obtain j where j: "k = Suc j" "j \<le> length w"
      unfolding tw by (cases k) auto
    have "\<not> atLineEnd (drop j (w @ rest))"
      by (rule not_lineEnd_inside [OF j(2) assms(3) nl]) (use Cons.prems(2) in auto)
    with j(1) show "\<not> atLineEnd (drop k ((c # w) @ rest))" by simp
  qed
  then have "replaceFrom reLineEdges [] 0 prev ((c # w) @ rest)
      = c # replaceFrom reLineEdges [] 0 (Some c) (w @ rest)"
    by (simp add: replaceFrom_nomatch del: replaceFrom.simps)
  moreover have "\<not> atLineStart (Some c)"
    using Cons.prems(2) by (simp add: atLineStart_def)
  ultimately show ?case
    using Cons.IH [of "Some c"] Cons.prems(2) by (simp del: replaceFrom.simps)
qed

lemma edgesF_terminator_run:
  assumes "\<not> atLineStart prev" and "isLineTerminator l"
    and "\<forall>c\<in>set b. isSpace c \<and> \<not> isLineTerminator c"
    and "rest \<noteq> []" and "\<not> isSpace (hd rest)"
  shows "replaceFrom reLineEdges [] 0 prev (l # b @ rest)
           = l # replaceFrom reLineEdges [] 0 p' rest"
proof -
  have nl: "\<not> isLineTerminator (hd rest)"
    using assms(5) lineTerminator_isSpace by blast
  have sp: "isSpace l" using assms(2) by (rule lineTerminator_isSpace)
  have tw: "takeWhile isSpace ((l # b) @ rest) = l # b"
    by (rule run_split(1)) (use assms(3,5) sp in auto)
  have "matchAt reLineEdges prev ((l # b) @ rest) = None"
  proof (rule matchAt_edges_inner_None [OF assms(1)], intro allI impI)
    fix k assume k: "Suc 0 \<le> k \<and> k \<le> length (takeWhile isSpace ((l # b) @ rest))"
    then obtain j where j: "k = Suc j" "j \<le> length b"
      unfolding tw by (cases k) auto
    have "\<not> atLineEnd (drop j (b @ rest))"
      by (rule not_lineEnd_inside [OF j(2) assms(4) nl]) (use assms(3) in auto)
    with j(1) show "\<not> atLineEnd (drop k ((l # b) @ rest))" by simp
  qed
  then have 1: "replaceFrom reLineEdges [] 0 prev (l # b @ rest)
      = l # replaceFrom reLineEdges [] 0 (Some l) (b @ rest)"
    by (simp add: replaceFrom_nomatch del: replaceFrom.simps)
  have 2: "replaceFrom reLineEdges [] 0 (Some l) (b @ rest)
      = replaceFrom reLineEdges [] 0 p' rest"
  proof (cases b)
    case Nil
    then show ?thesis using edgesF_indep [of rest "[]" "Some l" p'] assms(5) by simp
  next
    case (Cons x xs)
    have ls: "atLineStart (Some l)" using assms(2) by (simp add: atLineStart_def)
    have d: "dropWhile isSpace (b @ rest) = rest"
      by (rule run_split(2)) (use assms(3,5) in auto)
    have "replaceFrom reLineEdges [] 0 (Some l) (b @ rest)
        = replaceFrom reLineEdges [] 0 p' (dropWhile isSpace (b @ rest))"
      by (rule edgesF_lineStart [OF ls]) (use Cons assms(3) in auto)
    then show ?thesis by (simp only: d)
  qed
  from 1 2 show ?thesis by (simp del: replaceFrom.simps)
qed

lemma edgesF_mixed_run:
  assumes "\<not> atLineStart prev" and "a \<noteq> []" and "\<forall>c\<in>set a. isSpace c"
    and "isLineTerminator l"
    and "\<forall>c\<in>set b. isSpace c \<and> \<not> isLineTerminator c"
    and "rest \<noteq> []" and "\<not> isSpace (hd rest)"
  shows "replaceFrom reLineEdges [] 0 prev (a @ l # b @ rest)
           = (if isLineTerminator (last a) then [] else [l])
             @ replaceFrom reLineEdges [] 0 p' rest"
proof -
  let ?s = "a @ l # b @ rest"
  have nl: "\<not> isLineTerminator (hd rest)"
    using assms(7) lineTerminator_isSpace by blast
  have sp: "isSpace l" using assms(4) by (rule lineTerminator_isSpace)
  have "takeWhile isSpace ((a @ l # b) @ rest) = a @ l # b"
    by (rule run_split(1)) (use assms(3,5,7) sp in auto)
  then have tw: "takeWhile isSpace ?s = a @ l # b" by simp
  have k1: "Suc 0 \<le> length a" using assms(2) by (cases a) simp_all
  have k2: "length a \<le> length (takeWhile isSpace ?s)" by (simp only: tw) simp
  have k3: "atLineEnd (drop (length a) ?s)" using assms(4) by (simp add: atLineEnd_def)
  have k4: "\<forall>j. length a < j \<and> j \<le> length (takeWhile isSpace ?s)
                 \<longrightarrow> \<not> atLineEnd (drop j ?s)"
  proof (intro allI impI)
    fix j assume j: "length a < j \<and> j \<le> length (takeWhile isSpace ?s)"
    then obtain i where i: "j = length a + Suc i" "i \<le> length b"
      unfolding tw by (metis add_Suc_right add_le_cancel_left length_Cons length_append
          less_iff_Suc_add not_less_eq_eq)
    have "\<not> atLineEnd (drop i (b @ rest))"
      by (rule not_lineEnd_inside [OF i(2) assms(6) nl]) (use assms(5) in auto)
    moreover have "drop j ?s = drop i (b @ rest)" using i(1) by simp
    ultimately show "\<not> atLineEnd (drop j ?s)" by simp
  qed
  have m: "matchAt reLineEdges prev ?s = Some [take (length a) ?s, []]"
    by (rule matchAt_edges_inner_Some [OF assms(1) k1 k2 k3 k4])
  have n: "0 < length a" using assms(2) by simp
  have "replaceFrom reLineEdges [] 0 prev ?s
      = expand [] [take (length a) ?s, []]
        @ replaceFrom reLineEdges [] 0 (Some (?s ! (length a - 1))) (drop (length a) ?s)"
    by (rule replaceFrom_match [OF m _ n]) simp_all
  moreover have "?s ! (length a - 1) = last a"
    using assms(2) by (simp add: nth_append last_conv_nth)
  ultimately have 1: "replaceFrom reLineEdges [] 0 prev ?s
      = replaceFrom reLineEdges [] 0 (Some (last a)) (l # b @ rest)"
    by (simp del: replaceFrom.simps)
  show ?thesis
  proof (cases "isLineTerminator (last a)")
    case True
    then have ls: "atLineStart (Some (last a))" by (simp add: atLineStart_def)
    have "dropWhile isSpace ((l # b) @ rest) = rest"
      by (rule run_split(2)) (use assms(5,7) sp in auto)
    then have d: "dropWhile isSpace (l # b @ rest) = rest" by simp
    have "replaceFrom reLineEdges [] 0 (Some (last a)) (l # b @ rest)
        = replaceFrom reLineEdges [] 0 p' (dropWhile isSpace (l # b @ rest))"
      by (rule edgesF_lineStart [OF ls]) (use sp in auto)
    with 1 True d show ?thesis by (simp del: replaceFrom.simps)
  next
    case False
    then have "\<not> atLineStart (Some (last a))" by (simp add: atLineStart_def)
    from edgesF_terminator_run [OF this assms(4,5,6,7), of p'] 1 False
    show ?thesis by (simp del: replaceFrom.simps)
  qed
qed

lemma reduceRun_plain:
  assumes "\<forall>c\<in>set w. \<not> isLineTerminator c"
  shows "reduceRun w = w"
proof -
  have "dropWhile (\<lambda>c. \<not> isLineTerminator c) (rev w) = []"
    using assms by simp
  then show ?thesis by (simp only: reduceRun_def list.case)
qed

lemma reduceRun_split:
  assumes "isLineTerminator l" and "\<forall>c\<in>set b. \<not> isLineTerminator c"
  shows "reduceRun (a @ l # b) = (if a \<noteq> [] \<and> isLineTerminator (last a) then [] else [l])"
proof -
  have "dropWhile (\<lambda>c. \<not> isLineTerminator c) (rev (a @ l # b)) = l # rev a"
    using assms by (simp add: dropWhile_append3)
  then show ?thesis
    unfolding reduceRun_def
    by (cases a rule: rev_cases) simp_all
qed

lemma replaceFrom_edges:
  assumes "atLineStart prev = ls"
  shows "replaceFrom reLineEdges [] 0 prev s = edges ls s"
  using assms
proof (induction ls s arbitrary: prev rule: edges.induct)
  case (1 ls s)
  let ?p0 = "Some (CHR ''x'')"
  have p0: "atLineStart ?p0 = False"
    by (simp add: atLineStart_def isLineTerminator_def)
  show ?case
  proof (cases s)
    case Nil
    then show ?thesis by (simp add: edgesF_Nil edges.simps del: replaceFrom.simps)
  next
    case (Cons c cs)
    show ?thesis
    proof (cases "isSpace c")
      case False
      then have "atLineStart (Some c) = False"
        using lineTerminator_isSpace by (auto simp: atLineStart_def)
      from "1.IH"(1) [OF _ _ this] Cons False
      have "replaceFrom reLineEdges [] 0 (Some c) cs = edges False cs" by simp
      with Cons False show ?thesis
        by (simp add: edgesF_nonspace edges.simps [of ls "c # cs"] del: replaceFrom.simps)
    next
      case True
      let ?w = "takeWhile isSpace s" and ?rest = "dropWhile isSpace s"
      have s: "s = ?w @ ?rest" by simp
      have sn: "s \<noteq> []" "isSpace (hd s)" using Cons True by simp_all
      have w: "\<forall>c\<in>set ?w. isSpace c" by (meson set_takeWhileD)
      have IH: "replaceFrom reLineEdges [] 0 ?p0 ?rest = edges False ?rest"
        by (rule "1.IH"(2) [OF sn(1) _ p0]) (use sn(2) in simp)
      have e: "edges ls s = (if ls \<or> ?rest = [] then [] else reduceRun ?w) @ edges False ?rest"
        using sn by (subst edges.simps) simp
      show ?thesis
      proof (cases ls)
        case True
        with "1.prems" have "atLineStart prev" by simp
        from edgesF_lineStart [OF this sn, of ?p0] IH e True show ?thesis
          by (simp del: replaceFrom.simps)
      next
        case nls: False
        with "1.prems" have np: "\<not> atLineStart prev" by simp
        show ?thesis
        proof (cases "?rest = []")
          case True
          then have "\<forall>c\<in>set s. isSpace c" by simp
          from edgesF_trailing [OF np sn(1) this] e True show ?thesis
            by (simp add: edges.simps [of False "[]"] del: replaceFrom.simps)
        next
          case rn: False
          then have hr: "\<not> isSpace (hd ?rest)" by (rule hd_dropWhile)
          have goal: "replaceFrom reLineEdges [] 0 prev (?w @ ?rest)
                = reduceRun ?w @ replaceFrom reLineEdges [] 0 ?p0 ?rest"
          proof (cases "\<exists>c\<in>set ?w. isLineTerminator c")
            case False
            then have pl: "\<forall>c\<in>set ?w. isSpace c \<and> \<not> isLineTerminator c"
              using w by blast
            from edgesF_plain_run [OF np pl rn hr, of ?p0] reduceRun_plain [of ?w] False
            show ?thesis by (simp del: replaceFrom.simps)
          next
            case True
            then obtain a l b where ab: "?w = a @ l # b" "isLineTerminator l"
                "\<forall>c\<in>set b. \<not> isLineTerminator c"
              using split_list_last_prop [of ?w isLineTerminator] by blast
            have wa: "\<forall>c\<in>set a. isSpace c" and wb: "\<forall>c\<in>set b. isSpace c \<and> \<not> isLineTerminator c"
              using w ab(1,3) by auto
            show ?thesis
            proof (cases "a = []")
              case True
              from edgesF_terminator_run [OF np ab(2) wb rn hr, of ?p0]
                reduceRun_split [OF ab(2,3), of a] True ab(1)
              show ?thesis by (simp del: replaceFrom.simps)
            next
              case False
              from edgesF_mixed_run [OF np False wa ab(2) wb rn hr, of ?p0]
                reduceRun_split [OF ab(2,3), of a] False ab(1)
              show ?thesis by (simp del: replaceFrom.simps)
            qed
          qed
          have "replaceFrom reLineEdges [] 0 prev s
                = reduceRun ?w @ replaceFrom reLineEdges [] 0 ?p0 ?rest"
            using goal by (simp only: takeWhile_dropWhile_id)
          moreover have "edges ls s = reduceRun ?w @ edges False ?rest"
            using e nls rn by (simp only: if_False simp_thms)
          ultimately show ?thesis using IH by (simp only:)
        qed
      qed
    qed
  qed
qed

lemma replaceAll_edges: "replaceAll reLineEdges [] s = edges True s"
  unfolding replaceAll_def by (rule replaceFrom_edges) (simp add: atLineStart_def)

subsection \<open>Fixed points of the line-edge expression\<close>

lemma successively_plain:
  "\<forall>c\<in>set w. \<not> isLineTerminator c \<Longrightarrow> successively isolated w"
  by (induction w) (auto simp: successively_Cons isolated_def)

lemma reduceRun_cases:
  "((\<forall>c\<in>set w. \<not> isLineTerminator c) \<and> reduceRun w = w) \<or> reduceRun w = []
     \<or> (\<exists>l\<in>set w. reduceRun w = [l])"
proof (cases "\<exists>c\<in>set w. isLineTerminator c")
  case False
  then show ?thesis using reduceRun_plain [of w] by blast
next
  case True
  then obtain a l b where ab: "w = a @ l # b" "isLineTerminator l"
      "\<forall>c\<in>set b. \<not> isLineTerminator c"
    using split_list_last_prop [of w isLineTerminator] by blast
  from reduceRun_split [OF ab(2,3), of a] ab(1) show ?thesis by auto
qed

lemma edges_Nil: "edges b [] = []"
  by (simp add: edges.simps)

lemma edges_nonspace: "\<not> isSpace c \<Longrightarrow> edges b (c # cs) = c # edges False cs"
  by (simp add: edges.simps [of b "c # cs"])

lemma edges_space:
  "s \<noteq> [] \<Longrightarrow> isSpace (hd s) \<Longrightarrow>
     edges b s = (if b \<or> dropWhile isSpace s = [] then [] else reduceRun (takeWhile isSpace s))
                 @ edges False (dropWhile isSpace s)"
  by (subst edges.simps) simp

lemma edges_shape:
  "successively isolated (edges b s)
   \<and> (edges b s \<noteq> [] \<longrightarrow> \<not> isSpace (last (edges b s)))
   \<and> (b \<or> s = [] \<or> \<not> isSpace (hd s) \<longrightarrow> edges b s \<noteq> [] \<longrightarrow> \<not> isSpace (hd (edges b s)))"
proof (induction b s rule: edges.induct)
  case (1 b s)
  show ?case
  proof (cases s)
    case Nil
    then show ?thesis by (simp add: edges_Nil)
  next
    case (Cons c cs)
    show ?thesis
    proof (cases "isSpace c")
      case False
      let ?E = "edges False cs"
      from "1.IH"(1) Cons False
      have IH: "successively isolated ?E" "?E \<noteq> [] \<longrightarrow> \<not> isSpace (last ?E)" by simp_all
      have "isolated c y" for y
        using False lineTerminator_isSpace by (auto simp: isolated_def)
      then have "successively isolated (c # ?E)"
        using IH(1) by (simp add: successively_Cons)
      with IH(2) False Cons show ?thesis by (simp add: edges_nonspace)
    next
      case True
      let ?w = "takeWhile isSpace s" and ?rest = "dropWhile isSpace s"
      let ?E = "edges False ?rest"
      let ?R = "if b \<or> ?rest = [] then [] else reduceRun ?w"
      have sn: "s \<noteq> []" "isSpace (hd s)" using Cons True by simp_all
      have e: "edges b s = ?R @ ?E" using sn by (rule edges_space)
      from "1.IH"(2) sn
      have IH: "successively isolated ?E" "?E \<noteq> [] \<longrightarrow> \<not> isSpace (last ?E)"
          "?rest = [] \<or> \<not> isSpace (hd ?rest) \<longrightarrow> ?E \<noteq> [] \<longrightarrow> \<not> isSpace (hd ?E)"
        by simp_all
      have hE: "?E \<noteq> [] \<longrightarrow> \<not> isSpace (hd ?E)"
        using IH(3) hd_dropWhile [of isSpace s] by blast
      have j: "isolated x (hd ?E)" if "?E \<noteq> []" for x
        using hE that lineTerminator_isSpace by (auto simp: isolated_def)
      have sR: "successively isolated ?R"
        using reduceRun_cases [of ?w] successively_plain [of ?w] by auto
      have "successively isolated (?R @ ?E)"
        using sR IH(1) j by (auto simp: successively_append_iff)
      moreover have "?R @ ?E \<noteq> [] \<longrightarrow> \<not> isSpace (last (?R @ ?E))"
      proof (cases "?E = []")
        case True
        have "?rest = []"
        proof (rule ccontr)
          assume n: "?rest \<noteq> []"
          then have "\<not> isSpace (hd ?rest)" by (rule hd_dropWhile)
          from edges_nonspace [OF this, of False "tl ?rest"] n True show False
            by (simp del: dropWhile_eq_Nil_conv)
        qed
        with True show ?thesis by (simp del: dropWhile_eq_Nil_conv)
      next
        case False
        with IH(2) show ?thesis by simp
      qed
      moreover have "b \<longrightarrow> ?R @ ?E \<noteq> [] \<longrightarrow> \<not> isSpace (hd (?R @ ?E))"
        using hE by simp
      ultimately show ?thesis unfolding e using sn by blast
    qed
  qed
qed

lemma edged_edges: "edged (edges True s)"
  using edges_shape [of True s] unfolding edged_def by blast

lemma set_reduceRun: "set (reduceRun w) \<subseteq> set w"
  using reduceRun_cases [of w] by auto

lemma set_edges: "set (edges b s) \<subseteq> set s"
proof (induction b s rule: edges.induct)
  case (1 b s)
  show ?case
  proof (cases s)
    case Nil
    then show ?thesis by (simp add: edges_Nil)
  next
    case (Cons c cs)
    show ?thesis
    proof (cases "isSpace c")
      case False
      have "s \<noteq> []" "\<not> isSpace (hd s)" "tl s = cs" using Cons False by simp_all
      from "1.IH"(1) [OF this(1,2)] this(3) have "set (edges False cs) \<subseteq> set cs" by simp
      then have "set (c # edges False cs) \<subseteq> set (c # cs)" by auto
      then show ?thesis unfolding Cons by (simp only: edges_nonspace [OF False])
    next
      case True
      then have sn: "s \<noteq> []" "isSpace (hd s)" using Cons by simp_all
      have nn: "\<not> \<not> isSpace (hd s)" using sn(2) by simp
      have "set (edges False (dropWhile isSpace s)) \<subseteq> set (dropWhile isSpace s)"
        by (rule "1.IH"(2) [OF sn(1) nn])
      moreover have "set (dropWhile isSpace s) \<subseteq> set s" by (meson set_dropWhileD subsetI)
      ultimately have E: "set (edges False (dropWhile isSpace s)) \<subseteq> set s" by blast
      have "set (takeWhile isSpace s) \<subseteq> set s" by (meson set_takeWhileD subsetI)
      with set_reduceRun [of "takeWhile isSpace s"]
      have "set (reduceRun (takeWhile isSpace s)) \<subseteq> set s" by blast
      then have R: "set (if b \<or> dropWhile isSpace s = [] then []
                         else reduceRun (takeWhile isSpace s)) \<subseteq> set s"
        by (simp del: dropWhile_eq_Nil_conv)
      from R E show ?thesis
        unfolding edges_space [OF sn] set_append by (rule Un_least)
    qed
  qed
qed

lemma successively_takeWhile:
  assumes "successively P s"
  shows "successively P (takeWhile Q s)"
proof -
  from assms have "successively P (takeWhile Q s @ dropWhile Q s)" by simp
  then show ?thesis unfolding successively_append_iff by blast
qed

lemma successively_dropWhile:
  assumes "successively P s"
  shows "successively P (dropWhile Q s)"
proof -
  from assms have "successively P (takeWhile Q s @ dropWhile Q s)" by simp
  then show ?thesis unfolding successively_append_iff by blast
qed

lemma edges_notTwoSpaces:
  "successively notTwoSpaces s \<Longrightarrow> successively notTwoSpaces (edges b s)"
proof (induction b s rule: edges.induct)
  case (1 b s)
  show ?case
  proof (cases s)
    case Nil
    then show ?thesis by (simp add: edges_Nil)
  next
    case (Cons c cs)
    show ?thesis
    proof (cases "isSpace c")
      case False
      have "successively notTwoSpaces cs"
        using "1.prems" Cons by (auto simp: successively_Cons)
      with "1.IH"(1) Cons False have "successively notTwoSpaces (edges False cs)" by simp
      moreover have "c \<noteq> CHR '' ''" using False by (auto simp: isSpace_def)
      ultimately show ?thesis
        using Cons False by (simp add: edges_nonspace successively_Cons notTwoSpaces_def)
    next
      case True
      let ?w = "takeWhile isSpace s" and ?rest = "dropWhile isSpace s"
      let ?E = "edges False ?rest"
      let ?R = "if b \<or> ?rest = [] then [] else reduceRun ?w"
      have sn: "s \<noteq> []" "isSpace (hd s)" using Cons True by simp_all
      have E: "successively notTwoSpaces ?E"
        using "1.IH"(2) sn successively_dropWhile [OF "1.prems"] by simp
      have "successively notTwoSpaces ?w" by (rule successively_takeWhile [OF "1.prems"])
      then have R: "successively notTwoSpaces ?R"
        using reduceRun_cases [of ?w] by auto
      have "hd ?E \<noteq> CHR '' ''" if "?E \<noteq> []"
      proof -
        have n: "?rest \<noteq> []" using that by (auto simp: edges_Nil simp del: dropWhile_eq_Nil_conv)
        then have h: "\<not> isSpace (hd ?rest)" by (rule hd_dropWhile)
        from edges_nonspace [OF h, of False "tl ?rest"] n have "hd ?E = hd ?rest"
          by (simp del: dropWhile_eq_Nil_conv)
        with h show ?thesis by (auto simp: isSpace_def)
      qed
      then have "?R = [] \<or> ?E = [] \<or> notTwoSpaces (last ?R) (hd ?E)"
        by (auto simp: notTwoSpaces_def)
      with R E have "successively notTwoSpaces (?R @ ?E)"
        unfolding successively_append_iff by blast
      then show ?thesis by (simp only: edges_space [OF sn])
    qed
  qed
qed

lemma singleBlanks_edges: "singleBlanks s \<Longrightarrow> singleBlanks (edges b s)"
  unfolding singleBlanks_def using set_edges [of b s] edges_notTwoSpaces [of s b] by blast

lemma edges_fixed:
  assumes "successively isolated s" and "s \<noteq> [] \<longrightarrow> \<not> isSpace (last s)"
    and "b \<longrightarrow> s \<noteq> [] \<longrightarrow> \<not> isSpace (hd s)"
  shows "edges b s = s"
  using assms
proof (induction b s rule: edges.induct)
  case (1 b s)
  show ?case
  proof (cases s)
    case Nil
    then show ?thesis by (simp add: edges_Nil)
  next
    case (Cons c cs)
    show ?thesis
    proof (cases "isSpace c")
      case False
      have "successively isolated cs" "cs \<noteq> [] \<longrightarrow> \<not> isSpace (last cs)"
        using "1.prems" Cons by (auto simp: successively_Cons)
      with "1.IH"(1) Cons False have "edges False cs = cs" by simp
      with Cons False show ?thesis by (simp add: edges_nonspace)
    next
      case True
      let ?w = "takeWhile isSpace s" and ?rest = "dropWhile isSpace s"
      have sn: "s \<noteq> []" "isSpace (hd s)" using Cons True by simp_all
      have nb: "\<not> b" using "1.prems"(3) sn by blast
      have rn: "?rest \<noteq> []"
      proof
        assume "?rest = []"
        then have "\<forall>c\<in>set s. isSpace c" by simp
        with sn(1) have "isSpace (last s)" by simp
        with "1.prems"(2) sn(1) show False by blast
      qed
      have s: "s = ?w @ ?rest" by simp
      have w: "\<forall>c\<in>set ?w. isSpace c" by (meson set_takeWhileD)
      have "last (?w @ ?rest) = last ?rest" using rn by (rule last_appendR)
      then have "last ?rest = last s" by (simp only: takeWhile_dropWhile_id)
      moreover have "\<not> isSpace (last s)" using "1.prems"(2) sn(1) by blast
      ultimately have lr: "?rest \<noteq> [] \<longrightarrow> \<not> isSpace (last ?rest)"
        by (simp del: dropWhile_eq_Nil_conv)
      have "edges False ?rest = ?rest"
        using "1.IH"(2) [OF sn(1) _ successively_dropWhile [OF "1.prems"(1)] lr] sn(2)
        by simp
      moreover have "reduceRun ?w = ?w"
      proof (cases "\<exists>c\<in>set ?w. isLineTerminator c")
        case False
        then show ?thesis by (simp add: reduceRun_plain)
      next
        case True
        then obtain a l z where ab: "?w = a @ l # z" "isLineTerminator l"
            "\<forall>c\<in>set z. \<not> isLineTerminator c"
          using split_list_last_prop [of ?w isLineTerminator] by blast
        have sw: "successively isolated (a @ l # z)"
          using successively_takeWhile [OF "1.prems"(1), of isSpace] ab(1) by simp
        have a: "a = []"
        proof (rule ccontr)
          assume "a \<noteq> []"
          with sw have "isolated (last a) l" by (auto simp: successively_append_iff)
          moreover have "isSpace (last a)" using w ab(1) \<open>a \<noteq> []\<close> by auto
          ultimately show False using ab(2) by (simp add: isolated_def)
        qed
        have z: "z = []"
        proof (rule ccontr)
          assume "z \<noteq> []"
          with sw have "isolated l (hd z)"
            by (auto simp: successively_append_iff successively_Cons)
          moreover have "isSpace (hd z)" using w ab(1) \<open>z \<noteq> []\<close> by auto
          ultimately show False using ab(2) by (simp add: isolated_def)
        qed
        from reduceRun_split [OF ab(2,3), of a] a z ab(1) show ?thesis by simp
      qed
      ultimately show ?thesis
        using nb rn by (simp only: edges_space [OF sn]) simp
    qed
  qed
qed

lemma edged_fixed: "edged s \<Longrightarrow> edges True s = s"
  unfolding edged_def by (rule edges_fixed) auto

lemma edged_trim: "edged s \<Longrightarrow> trim s = s"
proof -
  assume e: "edged s"
  show ?thesis
  proof (cases s)
    case Nil
    then show ?thesis by (simp add: trim_def)
  next
    case (Cons c cs)
    with e have h: "\<not> isSpace (hd s)" "\<not> isSpace (last s)" by (auto simp: edged_def)
    from h(1) Cons have 1: "dropWhile isSpace s = s" by simp
    have "hd (rev s) = last s" using Cons by (simp add: hd_rev)
    with h(2) have "\<not> isSpace (hd (rev s))" by simp
    then have 2: "dropWhile isSpace (rev s) = rev s" by (cases "rev s") simp_all
    show ?thesis by (simp add: trim_def 1 2)
  qed
qed

subsection \<open>The other expressions of \<open>normalize\<close>\<close>

lemma firstSome_run_from:
  "firstSome (map (\<lambda>k. Some (g k)) (countdown n lo)) = (if lo \<le> n then Some (g n) else None)"
proof (cases "lo \<le> n")
  case True
  have "firstSome (map (\<lambda>k. Some (g k)) (countdown n lo)) = Some (g n)"
    by (rule firstSome_countdown_Some [of lo n n]) (use True in auto)
  with True show ?thesis by simp
next
  case False
  then show ?thesis by (subst countdown.simps) simp
qed

lemma matchSeq_single_rep:
  "matchSeq [Rep c n] prev s
     = (if n \<le> length (takeWhile (inClass c) s) then Some [takeWhile (inClass c) s]
        else None)"
proof -
  let ?m = "length (takeWhile (inClass c) s)"
  have "(\<lambda>k. map_option ((#) (take k s)) (matchSeq [] (lastOr prev (take k s)) (drop k s)))
          = (\<lambda>k. Some [take k s])"
    by (rule ext) simp
  then have "matchSeq [Rep c n] prev s
          = firstSome (map (\<lambda>k. Some [take k s]) (countdown ?m n))"
    by (simp only: matchSeq.simps(7))
  also have "\<dots> = (if n \<le> ?m then Some [take ?m s] else None)"
    by (rule firstSome_run_from)
  finally show ?thesis by (simp only: take_length_takeWhile)
qed

lemma inClass_blank: "inClass (OneOf [CHR '' '', TAB]) = blank"
  by (rule ext) (auto simp: blank_def)

lemma matchAt_blanks:
  "matchAt reBlanks prev s
     = (if s \<noteq> [] \<and> blank (hd s) then Some [takeWhile blank s] else None)"
proof -
  have "(1 \<le> length (takeWhile blank s)) = (s \<noteq> [] \<and> blank (hd s))"
    by (cases s) auto
  then show ?thesis
    unfolding matchAt_def reBlanks_def list.map matchSeq_single_rep inClass_blank
    by (simp add: firstSome_single)
qed

lemma blanks_Nil: "replaceFrom reBlanks r 0 prev [] = []"
  by (simp add: matchAt_blanks)

lemma blanks_other:
  "\<not> blank c \<Longrightarrow>
     replaceFrom reBlanks r 0 prev (c # cs) = c # replaceFrom reBlanks r 0 (Some c) cs"
  by (simp add: matchAt_blanks)

lemma blanks_blank:
  assumes "s \<noteq> []" and "blank (hd s)"
  shows "\<exists>p'. replaceFrom reBlanks [Lit '' ''] 0 prev s
           = CHR '' '' # replaceFrom reBlanks [Lit '' ''] 0 p' (dropWhile blank s)"
proof -
  let ?w = "takeWhile blank s"
  have m: "matchAt reBlanks prev s = Some [?w]" using assms by (simp add: matchAt_blanks)
  have n: "0 < length ?w" using assms by (cases s) auto
  have le: "length ?w \<le> length s" by (rule length_takeWhile_le)
  have "replaceFrom reBlanks [Lit '' ''] 0 prev s
      = expand [Lit '' ''] [?w]
        @ replaceFrom reBlanks [Lit '' ''] 0 (Some (s ! (length ?w - 1))) (drop (length ?w) s)"
    by (rule replaceFrom_match [OF m _ n le]) simp
  then show ?thesis by (auto simp: drop_length_takeWhile simp del: replaceFrom.simps)
qed

lemma blanks_shape:
  "TAB \<notin> set (replaceFrom reBlanks [Lit '' ''] 0 p s)
   \<and> successively notTwoSpaces (replaceFrom reBlanks [Lit '' ''] 0 p s)
   \<and> (replaceFrom reBlanks [Lit '' ''] 0 p s \<noteq> []
        \<and> hd (replaceFrom reBlanks [Lit '' ''] 0 p s) = CHR '' '' \<longrightarrow> s \<noteq> [] \<and> blank (hd s))"
proof (induction "length s" arbitrary: s p rule: less_induct)
  case less
  show ?case
  proof (cases s)
    case Nil
    then show ?thesis by (simp add: blanks_Nil del: replaceFrom.simps)
  next
    case (Cons c cs)
    show ?thesis
    proof (cases "blank c")
      case False
      let ?X = "replaceFrom reBlanks [Lit '' ''] 0 (Some c) cs"
      have "length cs < length s" using Cons by simp
      from less [OF this, of "Some c"]
      have IH: "TAB \<notin> set ?X" "successively notTwoSpaces ?X" by simp_all
      have c: "c \<noteq> TAB" "c \<noteq> CHR '' ''" using False by (auto simp: blank_def)
      have "replaceFrom reBlanks [Lit '' ''] 0 p s = c # ?X"
        unfolding Cons by (rule blanks_other [OF False])
      moreover have "successively notTwoSpaces (c # ?X)"
        using IH(2) c(2) by (simp add: successively_Cons notTwoSpaces_def)
      ultimately show ?thesis using IH(1) c by (simp del: replaceFrom.simps)
    next
      case True
      then have sn: "s \<noteq> []" "blank (hd s)" using Cons by simp_all
      let ?rest = "dropWhile blank s"
      from blanks_blank [OF sn, of p] obtain p' where
        e: "replaceFrom reBlanks [Lit '' ''] 0 p s
              = CHR '' '' # replaceFrom reBlanks [Lit '' ''] 0 p' ?rest"
        by blast
      let ?X = "replaceFrom reBlanks [Lit '' ''] 0 p' ?rest"
      have "length ?rest \<le> length cs"
        using Cons True by (simp add: length_dropWhile_le)
      then have "length ?rest < length s" using Cons by simp
      from less [OF this, of p']
      have IH: "TAB \<notin> set ?X" "successively notTwoSpaces ?X"
          "?X \<noteq> [] \<and> hd ?X = CHR '' '' \<longrightarrow> ?rest \<noteq> [] \<and> blank (hd ?rest)"
        by simp_all
      have "?X \<noteq> [] \<longrightarrow> hd ?X \<noteq> CHR '' ''"
        using IH(3) hd_dropWhile [of blank s] by blast
      then have "successively notTwoSpaces (CHR '' '' # ?X)"
        using IH(2) by (auto simp: successively_Cons notTwoSpaces_def simp del: replaceFrom.simps)
      with IH(1) sn show ?thesis unfolding e by simp
    qed
  qed
qed

lemma singleBlanks_blanks: "singleBlanks (replaceAll reBlanks [Lit '' ''] s)"
  unfolding singleBlanks_def replaceAll_def using blanks_shape [of None s] by blast

lemma blanks_fixed:
  "singleBlanks s \<Longrightarrow> replaceFrom reBlanks [Lit '' ''] 0 p s = s"
proof (induction s arbitrary: p)
  case Nil
  show ?case by (rule blanks_Nil)
next
  case (Cons c cs)
  have cs: "singleBlanks cs"
    using Cons.prems by (auto simp: singleBlanks_def successively_Cons)
  show ?case
  proof (cases "blank c")
    case False
    from blanks_other [OF False, of "[Lit '' '']" p cs] Cons.IH [OF cs, of "Some c"]
    show ?thesis by (simp del: replaceFrom.simps)
  next
    case True
    have c: "c = CHR '' ''"
      using True Cons.prems by (auto simp: blank_def singleBlanks_def)
    have "cs = [] \<or> \<not> blank (hd cs)"
    proof (cases cs)
      case Nil
      then show ?thesis by simp
    next
      case (Cons d ds)
      with Cons.prems c have "d \<noteq> TAB" "d \<noteq> CHR '' ''"
        by (auto simp: singleBlanks_def notTwoSpaces_def)
      with Cons show ?thesis by (simp add: blank_def)
    qed
    then have d: "dropWhile blank (c # cs) = cs"
      using True by (cases cs) auto
    from blanks_blank [of "c # cs" p] True obtain p' where
      "replaceFrom reBlanks [Lit '' ''] 0 p (c # cs)
         = CHR '' '' # replaceFrom reBlanks [Lit '' ''] 0 p' (dropWhile blank (c # cs))"
      by auto
    with d c Cons.IH [OF cs, of p'] show ?thesis by (simp del: replaceFrom.simps)
  qed
qed

lemma edged_adjacent:
  assumes "edged s" and "s = ys @ x # y # zs"
  shows "isolated x y"
proof -
  from assms have "successively isolated (ys @ x # y # zs)" by (simp add: edged_def)
  then have "successively isolated (x # y # zs)"
    unfolding successively_append_iff by blast
  then show ?thesis by simp
qed

lemma matchAt_crlf:
  "matchAt reCRLF prev s \<noteq> None \<Longrightarrow> \<exists>zs. s = CR # LF # zs"
  unfolding matchAt_def reCRLF_def
  by (cases s; cases "tl s") (auto split: if_splits)

lemma matchAt_newlines3:
  assumes "matchAt reNewlines3 prev s \<noteq> None"
  shows "\<exists>zs. s = LF # LF # zs"
proof -
  have "inClass (Chr LF) = (\<lambda>c. c = LF)" by (rule ext) simp
  with assms have "3 \<le> length (takeWhile (\<lambda>c. c = LF) s)"
    unfolding matchAt_def reNewlines3_def list.map matchSeq_single_rep
    by (simp add: firstSome_single split: if_splits)
  then obtain a b w where w: "takeWhile (\<lambda>c. c = LF) s = a # b # w"
    by (cases "takeWhile (\<lambda>c. c = LF) s"; cases "tl (takeWhile (\<lambda>c. c = LF) s)") auto
  then have "a = LF" "b = LF"
    by (metis list.set_intros(1) set_takeWhileD, metis list.set_intros(1,2) set_takeWhileD)
  moreover have "s = (a # b # w) @ dropWhile (\<lambda>c. c = LF) s"
    using w by (metis takeWhile_dropWhile_id)
  ultimately have "s = LF # LF # (w @ dropWhile (\<lambda>c. c = LF) s)" by simp
  then show ?thesis by (rule exI)
qed

lemma crlf_fixed:
  assumes "edged s"
  shows "replaceAll reCRLF r s = s"
  unfolding replaceAll_def
proof (rule replaceFrom_no_match_anywhere, intro allI impI, rule ccontr)
  fix ys zs assume s: "s = ys @ zs" and m: "matchAt reCRLF (lastOr None ys) zs \<noteq> None"
  from matchAt_crlf [OF m] obtain t where "zs = CR # LF # t" by blast
  with s edged_adjacent [OF assms, of ys CR LF t] have "isolated CR LF" by simp
  then show False by (simp add: isolated_def isLineTerminator_def isSpace_def)
qed

lemma newlines3_fixed:
  assumes "edged s"
  shows "replaceAll reNewlines3 r s = s"
  unfolding replaceAll_def
proof (rule replaceFrom_no_match_anywhere, intro allI impI, rule ccontr)
  fix ys zs assume s: "s = ys @ zs" and m: "matchAt reNewlines3 (lastOr None ys) zs \<noteq> None"
  from matchAt_newlines3 [OF m] obtain t where "zs = LF # LF # t" by blast
  with s edged_adjacent [OF assms, of ys LF LF t] have "isolated LF LF" by simp
  then show False by (simp add: isolated_def isLineTerminator_def isSpace_def)
qed

lemma normalize_shape: "edged (normalize t) \<and> singleBlanks (normalize t)"
proof -
  let ?b = "replaceAll reBlanks [Lit '' '']
              (replaceAll reNewlines3 [Lit [LF, LF]] (replaceAll reCRLF [Lit [LF]] t))"
  let ?e = "replaceAll reLineEdges [] ?b"
  have e: "?e = edges True ?b" by (rule replaceAll_edges)
  have 1: "edged ?e" unfolding e by (rule edged_edges)
  have 2: "singleBlanks ?e" unfolding e by (rule singleBlanks_edges [OF singleBlanks_blanks])
  have "normalize t = trim ?e" by (simp add: normalize_def)
  also have "\<dots> = ?e" by (rule edged_trim [OF 1])
  finally show ?thesis using 1 2 by simp
qed

lemma normalize_fixed:
  assumes "edged s" and "singleBlanks s"
  shows "normalize s = s"
proof -
  have "replaceAll reBlanks [Lit '' ''] s = s"
    unfolding replaceAll_def by (rule blanks_fixed [OF assms(2)])
  moreover have "replaceAll reLineEdges [] s = s"
    by (simp only: replaceAll_edges edged_fixed [OF assms(1)])
  ultimately show ?thesis
    unfolding normalize_def
    by (simp only: crlf_fixed [OF assms(1)] newlines3_fixed [OF assms(1)] edged_trim [OF assms(1)])
qed

lemma normalize_idempotent: "normalize (normalize t) = normalize t"
  using normalize_fixed normalize_shape by blast

subsection \<open>More on the matcher: a match is a prefix of the input\<close>

lemma firstSome_map_Some:
  "firstSome (map g ks) = Some v \<Longrightarrow> \<exists>k\<in>set ks. g k = Some v"
proof (induction ks)
  case Nil
  then show ?case by simp
next
  case (Cons k ks)
  then show ?case by (cases "g k") auto
qed

lemma set_countdown: "set (countdown hi lo) = {lo..hi}"
proof (induction hi lo rule: countdown.induct)
  case (1 hi lo)
  show ?case
  proof (cases "hi < lo")
    case True
    then show ?thesis by (subst countdown.simps) simp
  next
    case False
    show ?thesis
    proof (cases "hi = lo")
      case True
      then show ?thesis by (subst countdown.simps) simp
    next
      case neq: False
      have "set (countdown hi lo) = insert hi (set (countdown (hi - 1) lo))"
        using False neq by (subst countdown.simps) simp
      also have "\<dots> = insert hi {lo..hi - 1}" using "1.IH" [OF False neq] by simp
      also have "\<dots> = {lo..hi}" using False neq by auto
      finally show ?thesis .
    qed
  qed
qed

lemma matchSeq_concat:
  "matchSeq its prev s = Some ms \<Longrightarrow> \<exists>tail. s = concat ms @ tail"
proof (induction its arbitrary: prev s ms)
  case Nil
  then show ?case by simp
next
  case (Cons it its)
  show ?case
  proof (cases it)
    case LineStart
    with Cons.prems obtain ms' where "matchSeq its prev s = Some ms'" "ms = [] # ms'"
      by (auto split: if_splits)
    with Cons.IH [of prev s ms'] show ?thesis by simp
  next
    case LineEnd
    with Cons.prems obtain ms' where "matchSeq its prev s = Some ms'" "ms = [] # ms'"
      by (auto split: if_splits)
    with Cons.IH [of prev s ms'] show ?thesis by simp
  next
    case InputStart
    with Cons.prems obtain ms' where "matchSeq its prev s = Some ms'" "ms = [] # ms'"
      by (auto split: if_splits)
    with Cons.IH [of prev s ms'] show ?thesis by simp
  next
    case WordBoundary
    with Cons.prems obtain ms' where "matchSeq its prev s = Some ms'" "ms = [] # ms'"
      by (auto split: if_splits)
    with Cons.IH [of prev s ms'] show ?thesis by simp
  next
    case (One c)
    with Cons.prems obtain x xs ms' where x: "s = x # xs"
        "matchSeq its (Some x) xs = Some ms'" "ms = [x] # ms'"
      by (auto split: list.splits if_splits)
    with Cons.IH [of "Some x" xs ms'] show ?thesis by auto
  next
    case (Rep c n)
    let ?g = "\<lambda>k. map_option ((#) (take k s)) (matchSeq its (lastOr prev (take k s)) (drop k s))"
    from Cons.prems Rep
    have "firstSome (map ?g (countdown (length (takeWhile (inClass c) s)) n)) = Some ms"
      by simp
    from firstSome_map_Some [OF this] obtain k where
      k: "k \<le> length (takeWhile (inClass c) s)" "?g k = Some ms"
      by (auto simp: set_countdown)
    then obtain ms' where m: "matchSeq its (lastOr prev (take k s)) (drop k s) = Some ms'"
        "ms = take k s # ms'"
      by auto
    from Cons.IH [OF m(1)] obtain tail where t: "drop k s = concat ms' @ tail" by blast
    have "s = take k s @ drop k s" by simp
    with t m(2) have "s = concat ms @ tail" by simp
    then show ?thesis by blast
  qed
qed

lemma matchAt_concat:
  assumes "matchAt re prev s = Some ms"
  shows "\<exists>tail. s = concat ms @ tail"
proof -
  from assms firstSome_map_Some [of "\<lambda>its. matchSeq its prev s" re ms]
  obtain its where "matchSeq its prev s = Some ms"
    by (auto simp: matchAt_def)
  then show ?thesis by (rule matchSeq_concat)
qed

lemma lastOr_append: "lastOr prev (a @ b) = lastOr (lastOr prev a) b"
  by (simp add: lastOr_def)

lemma lastOr_Cons: "lastOr prev (c # ys) = lastOr (Some c) ys"
  by (simp add: lastOr_def)

lemma lastOr_Nil: "lastOr prev [] = prev"
  by (simp add: lastOr_def)

lemma replaceFrom_fixed:
  assumes "\<forall>ys zs ms. s = ys @ zs \<longrightarrow> matchAt re (lastOr prev ys) zs = Some ms
             \<longrightarrow> expand r ms = concat ms \<and> concat ms \<noteq> []"
  shows "replaceFrom re r 0 prev s = s"
  using assms
proof (induction "length s" arbitrary: s prev rule: less_induct)
  case less
  show ?case
  proof (cases "matchAt re prev s")
    case None
    show ?thesis
    proof (cases s)
      case Nil
      with None show ?thesis by simp
    next
      case (Cons c cs)
      have "replaceFrom re r 0 (Some c) cs = cs"
      proof (rule less.hyps)
        show "length cs < length s" using Cons by simp
        show "\<forall>ys zs ms. cs = ys @ zs \<longrightarrow> matchAt re (lastOr (Some c) ys) zs = Some ms
             \<longrightarrow> expand r ms = concat ms \<and> concat ms \<noteq> []"
        proof (intro allI impI)
          fix ys zs ms assume a: "cs = ys @ zs" "matchAt re (lastOr (Some c) ys) zs = Some ms"
          have "s = (c # ys) @ zs" using Cons a(1) by simp
          moreover have "matchAt re (lastOr prev (c # ys)) zs = Some ms"
            using a(2) by (simp only: lastOr_Cons)
          ultimately show "expand r ms = concat ms \<and> concat ms \<noteq> []"
            using less.prems by blast
        qed
      qed
      with None Cons show ?thesis by simp
    qed
  next
    case (Some ms)
    define m where "m = concat ms"
    from less.prems [rule_format, of "[]" s ms] Some
    have f: "expand r ms = m" "m \<noteq> []" by (simp_all add: lastOr_def m_def)
    from matchAt_concat [OF Some] obtain tail where t: "s = m @ tail"
      unfolding m_def by blast
    have len: "length (concat ms) = length m" by (simp add: m_def)
    have n: "0 < length m" "length m \<le> length s" using f(2) t by simp_all
    have d: "drop (length m) s = tail" using t by simp
    have "replaceFrom re r 0 prev s
        = expand r ms @ replaceFrom re r 0 (Some (s ! (length m - 1))) (drop (length m) s)"
      by (rule replaceFrom_match [OF Some len n])
    moreover have "replaceFrom re r 0 (Some (s ! (length m - 1))) tail = tail"
    proof (rule less.hyps)
      show "length tail < length s" using t n(1) by simp
      show "\<forall>ys zs ms'. tail = ys @ zs
             \<longrightarrow> matchAt re (lastOr (Some (s ! (length m - 1))) ys) zs = Some ms'
             \<longrightarrow> expand r ms' = concat ms' \<and> concat ms' \<noteq> []"
      proof (intro allI impI)
        fix ys zs ms'
        assume a: "tail = ys @ zs"
          "matchAt re (lastOr (Some (s ! (length m - 1))) ys) zs = Some ms'"
        have "s ! (length m - 1) = last m"
          using t f(2) by (simp add: nth_append last_conv_nth)
        then have "lastOr prev (m @ ys) = lastOr (Some (s ! (length m - 1))) ys"
          using f(2) by (simp add: lastOr_def)
        moreover have "s = (m @ ys) @ zs" using t a(1) by simp
        ultimately show "expand r ms' = concat ms' \<and> concat ms' \<noteq> []"
          using less.prems a(2) by metis
      qed
    qed
    ultimately show ?thesis using f(1) t d by simp
  qed
qed

subsection \<open>The expressions of \<open>convertToMarkdown\<close>\<close>

lemma matchSeq_rep_greedy:
  assumes "n \<le> length (takeWhile (inClass c) s)"
    and "matchSeq its (lastOr prev (takeWhile (inClass c) s)) (dropWhile (inClass c) s) = Some ms"
  shows "matchSeq (Rep c n # its) prev s = Some (takeWhile (inClass c) s # ms)"
proof -
  let ?hi = "length (takeWhile (inClass c) s)"
  let ?g = "\<lambda>k. map_option ((#) (take k s)) (matchSeq its (lastOr prev (take k s)) (drop k s))"
  have "?g ?hi = Some (takeWhile (inClass c) s # ms)"
    using assms(2) by (simp add: take_length_takeWhile drop_length_takeWhile)
  moreover have "\<forall>j. ?hi < j \<and> j \<le> ?hi \<longrightarrow> ?g j = None"
    using leD by blast
  ultimately have "firstSome (map ?g (countdown ?hi n)) = Some (takeWhile (inClass c) s # ms)"
    by (rule firstSome_countdown_Some [OF assms(1) le_refl])
  then show ?thesis by (simp only: matchSeq.simps(7))
qed

lemma matchSeq_rep_only_greedy:
  assumes "\<forall>k<length (takeWhile (inClass c) s).
             matchSeq its (lastOr prev (take k s)) (drop k s) = None"
  shows "matchSeq (Rep c n # its) prev s
     = (if n \<le> length (takeWhile (inClass c) s)
        then map_option ((#) (takeWhile (inClass c) s))
               (matchSeq its (lastOr prev (takeWhile (inClass c) s)) (dropWhile (inClass c) s))
        else None)"
proof -
  let ?hi = "length (takeWhile (inClass c) s)"
  let ?g = "\<lambda>k. map_option ((#) (take k s)) (matchSeq its (lastOr prev (take k s)) (drop k s))"
  have e: "matchSeq (Rep c n # its) prev s = firstSome (map ?g (countdown ?hi n))"
    by (simp only: matchSeq.simps(7))
  show ?thesis
  proof (cases "n \<le> ?hi")
    case False
    then have "countdown ?hi n = []" by (subst countdown.simps) simp
    with False e show ?thesis by simp
  next
    case True
    show ?thesis
    proof (cases "matchSeq its (lastOr prev (takeWhile (inClass c) s)) (dropWhile (inClass c) s)")
      case (Some ms)
      from matchSeq_rep_greedy [OF True Some] True Some show ?thesis by simp
    next
      case None
      have "\<forall>k. n \<le> k \<and> k \<le> ?hi \<longrightarrow> ?g k = None"
      proof (intro allI impI)
        fix k assume k: "n \<le> k \<and> k \<le> ?hi"
        show "?g k = None"
        proof (cases "k = ?hi")
          case True
          with None show ?thesis by (simp add: take_length_takeWhile drop_length_takeWhile)
        next
          case False
          with k have "k < ?hi" by simp
          with assms show ?thesis by simp
        qed
      qed
      then have "firstSome (map ?g (countdown ?hi n)) = None"
        by (rule firstSome_countdown_None)
      with e True None show ?thesis by simp
    qed
  qed
qed

lemma drop_in_run:
  assumes "k < length (takeWhile P s)"
  shows "drop k s \<noteq> [] \<and> P (hd (drop k s))"
proof -
  have "k < length s" using assms length_takeWhile_le [of P s] by (rule less_le_trans)
  then have "drop k s \<noteq> []" "hd (drop k s) = s ! k" by (simp_all add: hd_drop_conv_nth)
  moreover have "s ! k = takeWhile P s ! k" using assms by (simp add: takeWhile_nth)
  moreover have "takeWhile P s ! k \<in> set (takeWhile P s)" using assms by simp
  ultimately show ?thesis by (metis set_takeWhileD)
qed

lemma matchSeq_one_rep:
  "matchSeq [One c, Rep d n] prev s
     = (case s of
          [] \<Rightarrow> None
        | x # xs \<Rightarrow> if inClass c x \<and> n \<le> length (takeWhile (inClass d) xs)
                    then Some [[x], takeWhile (inClass d) xs] else None)"
  by (cases s) (simp_all only: matchSeq.simps(6) matchSeq_single_rep list.case, auto)

lemma matchSeq_rep_one_rep:
  assumes "\<forall>x. inClass c x \<longrightarrow> \<not> inClass d x"
  shows "matchSeq [Rep c n, One d, Rep e m] prev s
     = (if n \<le> length (takeWhile (inClass c) s)
        then (case dropWhile (inClass c) s of
                [] \<Rightarrow> None
              | x # xs \<Rightarrow> if inClass d x \<and> m \<le> length (takeWhile (inClass e) xs)
                          then Some [takeWhile (inClass c) s, [x], takeWhile (inClass e) xs]
                          else None)
        else None)"
proof -
  have "\<forall>k<length (takeWhile (inClass c) s).
          matchSeq [One d, Rep e m] (lastOr prev (take k s)) (drop k s) = None"
  proof (intro allI impI)
    fix k assume "k < length (takeWhile (inClass c) s)"
    from drop_in_run [OF this] obtain x xs where "drop k s = x # xs" "inClass c x"
      by (cases "drop k s") auto
    with assms show "matchSeq [One d, Rep e m] (lastOr prev (take k s)) (drop k s) = None"
      by (simp add: matchSeq_one_rep del: matchSeq.simps)
  qed
  from matchSeq_rep_only_greedy [OF this, of n]
  have e: "matchSeq [Rep c n, One d, Rep e m] prev s
     = (if n \<le> length (takeWhile (inClass c) s)
        then map_option ((#) (takeWhile (inClass c) s))
               (matchSeq [One d, Rep e m] (lastOr prev (takeWhile (inClass c) s))
                  (dropWhile (inClass c) s))
        else None)" .
  show ?thesis
  proof (cases "dropWhile (inClass c) s")
    case Nil
    show ?thesis unfolding e matchSeq_one_rep Nil by simp
  next
    case (Cons x xs)
    show ?thesis unfolding e matchSeq_one_rep Cons by simp
  qed
qed

lemma matchSeq_rep_short:
  "\<not> n \<le> length (takeWhile (inClass c) s) \<Longrightarrow> matchSeq (Rep c n # its) prev s = None"
proof -
  assume "\<not> n \<le> length (takeWhile (inClass c) s)"
  then have "countdown (length (takeWhile (inClass c) s)) n = []"
    by (subst countdown.simps) simp
  then show ?thesis by (simp only: matchSeq.simps(7)) simp
qed

lemma inClass_Chr: "inClass (Chr a) = (\<lambda>c. c = a)"
  by (rule ext) simp

lemma inClass_Dot: "inClass Dot = (\<lambda>c. \<not> isLineTerminator c)"
  by (rule ext) simp

lemma inClass_Digit: "inClass Digit = isDigit"
  by (rule ext) simp

lemma inClass_hash: "inClass (Chr (CHR ''#'')) = isHash"
  by (rule ext) (simp add: isHash_def)

lemma inClass_bullet: "inClass (OneOf ''-*'') = isBullet"
  by (rule ext) (auto simp: isBullet_def)

lemma matchSeq_dot_lineEnd:
  "matchSeq [Rep Dot 0, LineEnd] prev s = Some [takeWhile (\<lambda>c. \<not> isLineTerminator c) s, []]"
proof -
  have "atLineEnd (dropWhile (inClass Dot) s)"
  proof (cases "dropWhile (inClass Dot) s")
    case Nil
    show ?thesis unfolding atLineEnd_def Nil by simp
  next
    case (Cons x xs)
    then have "\<not> inClass Dot x" by (metis hd_dropWhile list.distinct(1) list.sel(1))
    then show ?thesis unfolding atLineEnd_def Cons by simp
  qed
  then have "matchSeq [LineEnd] (lastOr prev (takeWhile (inClass Dot) s))
               (dropWhile (inClass Dot) s) = Some [[]]"
    by simp
  from matchSeq_rep_greedy [OF _ this, of 0] show ?thesis
    by (simp add: inClass_Dot del: matchSeq.simps)
qed

lemma matchSeq_heading_body:
  "matchSeq [Rep (Chr (CHR ''#'')) (Suc 0), Rep Space 0, Rep Dot 0, LineEnd] prev s
     = (if s \<noteq> [] \<and> isHash (hd s)
        then Some [takeWhile isHash s,
                   takeWhile isSpace (dropWhile isHash s),
                   takeWhile (\<lambda>c. \<not> isLineTerminator c) (dropWhile isSpace (dropWhile isHash s)),
                   []]
        else None)"
proof -
  have sp: "matchSeq [Rep Space 0, Rep Dot 0, LineEnd] p z
      = Some [takeWhile isSpace z,
              takeWhile (\<lambda>c. \<not> isLineTerminator c) (dropWhile isSpace z), []]" for p z
    using matchSeq_rep_greedy [of 0 Space z "[Rep Dot 0, LineEnd]" p, OF _ matchSeq_dot_lineEnd]
    by (simp add: inClass_Space del: matchSeq.simps)
  have n: "(Suc 0 \<le> length (takeWhile isHash s)) = (s \<noteq> [] \<and> isHash (hd s))"
    by (cases s) auto
  show ?thesis
  proof (cases "s \<noteq> [] \<and> isHash (hd s)")
    case True
    with n have "Suc 0 \<le> length (takeWhile isHash s)" by blast
    then have "Suc 0 \<le> length (takeWhile (inClass (Chr (CHR ''#''))) s)"
      by (simp add: inClass_hash)
    from matchSeq_rep_greedy [OF this sp] True show ?thesis
      by (simp add: inClass_hash del: matchSeq.simps)
  next
    case False
    with n have "\<not> Suc 0 \<le> length (takeWhile isHash s)" by blast
    then have "\<not> Suc 0 \<le> length (takeWhile (inClass (Chr (CHR ''#''))) s)"
      by (simp add: inClass_hash)
    from matchSeq_rep_short [OF this] False show ?thesis by (simp del: matchSeq.simps)
  qed
qed

lemma reHeading_Suc:
  "reHeading = [[LineStart, Rep (Chr (CHR ''#'')) (Suc 0), Rep Space 0, Rep Dot 0, LineEnd]]"
  by (simp add: reHeading_def)

lemma matchAt_heading:
  "matchAt reHeading prev s
     = (if atLineStart prev \<and> s \<noteq> [] \<and> isHash (hd s)
        then Some [[], takeWhile isHash s,
                   takeWhile isSpace (dropWhile isHash s),
                   takeWhile (\<lambda>c. \<not> isLineTerminator c) (dropWhile isSpace (dropWhile isHash s)),
                   []]
        else None)"
  unfolding matchAt_def reHeading_Suc list.map matchSeq.simps(2) matchSeq_heading_body
  by (simp add: firstSome_single)

lemma reBullet_Suc:
  "reBullet = [[LineStart, Rep Space 0, One (OneOf ''-*''), Rep Space (Suc 0)]]"
  by (simp add: reBullet_def)

lemma matchAt_bullet:
  "matchAt reBullet prev s
     = (if atLineStart prev
        then (case dropWhile isSpace s of
                [] \<Rightarrow> None
              | x # xs \<Rightarrow> if isBullet x \<and> xs \<noteq> [] \<and> isSpace (hd xs)
                          then Some [[], takeWhile isSpace s, [x], takeWhile isSpace xs]
                          else None)
        else None)"
proof -
  have d: "\<forall>x. inClass Space x \<longrightarrow> \<not> inClass (OneOf ''-*'') x"
    by (auto simp: isSpace_def)
  have n: "(Suc 0 \<le> length (takeWhile isSpace xs)) = (xs \<noteq> [] \<and> isSpace (hd xs))" for xs
    by (cases xs) auto
  show ?thesis
    unfolding matchAt_def reBullet_Suc list.map matchSeq.simps(2)
      matchSeq_rep_one_rep [OF d] inClass_Space inClass_bullet n
    by (cases "dropWhile isSpace s") (simp_all add: firstSome_single del: dropWhile_eq_Nil_conv)
qed

lemma reNumbered_Suc:
  "reNumbered = [[WordBoundary, Rep Digit (Suc 0), One (Chr (CHR ''.'')), Rep Space (Suc 0)]]"
  by (simp add: reNumbered_def)

lemma matchAt_numbered:
  "matchAt reNumbered prev s
     = (if atWordBoundary prev s \<and> s \<noteq> [] \<and> isDigit (hd s)
        then (case dropWhile isDigit s of
                [] \<Rightarrow> None
              | x # xs \<Rightarrow> if x = CHR ''.'' \<and> xs \<noteq> [] \<and> isSpace (hd xs)
                          then Some [[], takeWhile isDigit s, [x], takeWhile isSpace xs]
                          else None)
        else None)"
proof -
  have d: "\<forall>x. inClass Digit x \<longrightarrow> \<not> inClass (Chr (CHR ''.'')) x"
    by (auto simp: isDigit_def)
  have n: "(Suc 0 \<le> length (takeWhile isSpace xs)) = (xs \<noteq> [] \<and> isSpace (hd xs))" for xs
    by (cases xs) auto
  have m: "(Suc 0 \<le> length (takeWhile isDigit s)) = (s \<noteq> [] \<and> isDigit (hd s))"
    by (cases s) auto
  show ?thesis
    unfolding matchAt_def reNumbered_Suc list.map matchSeq.simps(5)
      matchSeq_rep_one_rep [OF d] inClass_Space inClass_Digit inClass_Chr n m
    by (cases "dropWhile isDigit s") (simp_all add: firstSome_single del: dropWhile_eq_Nil_conv)
qed

subsection \<open>The three replacements of \<open>convertToMarkdown\<close> rewrite a marker and its whitespace\<close>

lemma hash_not_space: "isHash c \<Longrightarrow> \<not> isSpace c"
  by (auto simp: isHash_def isSpace_def)

lemma bullet_not_space: "isBullet c \<Longrightarrow> \<not> isSpace c"
  by (auto simp: isBullet_def isSpace_def)

lemma digit_not_space: "isDigit c \<Longrightarrow> \<not> isSpace c"
  by (auto simp: isDigit_def isSpace_def)

lemma tidy_lineStart:
  assumes "tidy prev s" and "atLineStart prev"
  shows "s = [] \<or> \<not> isSpace (hd s)"
proof (cases prev)
  case None
  with assms(1) show ?thesis by (simp add: tidy_def)
next
  case (Some c)
  show ?thesis
  proof (cases s)
    case Nil
    then show ?thesis by simp
  next
    case (Cons x xs)
    from assms(1) Some Cons have "isolated c x" by (simp add: tidy_def ctx_def)
    moreover from assms(2) Some have "isLineTerminator c" by (simp add: atLineStart_def)
    ultimately show ?thesis using Cons by (simp add: isolated_def)
  qed
qed

lemma shapedI:
  assumes "s = u0 @ w @ v @ tail" and "concat ms = u0 @ w @ v"
    and "expand r ms = u @ '' '' @ v"
    and "u0 \<noteq> []" and "\<forall>c\<in>set u0. \<not> isSpace c"
    and "u \<noteq> []" and "\<forall>c\<in>set u. \<not> isSpace c"
    and "\<forall>c\<in>set w. isSpace c"
    and "v = [] \<longrightarrow> tail = [] \<or> \<not> isSpace (hd tail)"
    and "v \<noteq> [] \<longrightarrow> \<not> isSpace (hd v) \<and> (\<forall>c\<in>set v. \<not> isLineTerminator c)"
    and "v = [] \<and> tail = [] \<longrightarrow> last u = CHR ''#'' \<or> (w \<noteq> [] \<and> last u0 \<noteq> CHR ''#'')"
  shows "shaped r s ms"
  unfolding shaped_def using assms by blast

lemma rewriting_heading: "rewriting reHeading [Lit ''# '', Piece 3]"
  unfolding rewriting_def
proof (intro allI impI, elim conjE)
  fix prev s ms
  assume m: "matchAt reHeading prev s = Some ms"
  let ?u0 = "takeWhile isHash s" and ?s1 = "dropWhile isHash s"
  let ?w = "takeWhile isSpace ?s1" and ?s2 = "dropWhile isSpace ?s1"
  let ?v = "takeWhile (\<lambda>c. \<not> isLineTerminator c) ?s2"
  let ?tail = "dropWhile (\<lambda>c. \<not> isLineTerminator c) ?s2"
  from m have c: "s \<noteq> []" "isHash (hd s)" and ms: "ms = [[], ?u0, ?w, ?v, []]"
    by (auto simp: matchAt_heading split: if_splits)
  have 1: "s = ?u0 @ ?w @ ?v @ ?tail" by simp
  have 2: "concat ms = ?u0 @ ?w @ ?v" by (simp add: ms)
  have 3: "expand [Lit ''# '', Piece 3] ms = ''#'' @ '' '' @ ?v" by (simp add: ms)
  have 4: "?u0 \<noteq> []" using c by (cases s) auto
  have 5: "\<forall>c\<in>set ?u0. \<not> isSpace c" by (meson hash_not_space set_takeWhileD)
  have 6: "\<forall>c\<in>set ?w. isSpace c" by (meson set_takeWhileD)
  have s2: "?s2 = [] \<or> \<not> isSpace (hd ?s2)" by (metis hd_dropWhile)
  have 7: "?v = [] \<longrightarrow> ?tail = [] \<or> \<not> isSpace (hd ?tail)"
  proof
    assume v: "?v = []"
    have "?s2 = []"
    proof (rule ccontr)
      assume n: "?s2 \<noteq> []"
      with s2 have "\<not> isLineTerminator (hd ?s2)" using lineTerminator_isSpace by blast
      with n have "?v \<noteq> []" by (cases ?s2) auto
      with v show False by contradiction
    qed
    then have "?tail = []" by (metis dropWhile.simps(1))
    then show "?tail = [] \<or> \<not> isSpace (hd ?tail)" by blast
  qed
  have 8: "?v \<noteq> [] \<longrightarrow> \<not> isSpace (hd ?v) \<and> (\<forall>c\<in>set ?v. \<not> isLineTerminator c)"
  proof
    assume v: "?v \<noteq> []"
    then have "?s2 \<noteq> []" by (metis takeWhile.simps(1))
    with s2 have "\<not> isSpace (hd ?s2)" by blast
    moreover have "hd ?v = hd ?s2" using v by (cases ?s2) (auto split: if_splits)
    moreover have "\<forall>c\<in>set ?v. \<not> isLineTerminator c"
      using set_takeWhileD [of _ "\<lambda>c. \<not> isLineTerminator c" ?s2] by blast
    ultimately show "\<not> isSpace (hd ?v) \<and> (\<forall>c\<in>set ?v. \<not> isLineTerminator c)" by simp
  qed
  have 9: "\<forall>c\<in>set ''#''. \<not> isSpace c" by (simp add: isSpace_def)
  show "shaped [Lit ''# '', Piece 3] s ms"
    by (rule shapedI [OF 1 2 3 4 5 _ 9 6 7 8]) simp_all
qed

lemma rewriting_bullet: "rewriting reBullet [Lit ''- '']"
  unfolding rewriting_def
proof (intro allI impI, elim conjE)
  fix prev s ms
  assume t: "tidy prev s" and m: "matchAt reBullet prev s = Some ms"
  from m have ls: "atLineStart prev" by (auto simp: matchAt_bullet split: if_splits)
  from tidy_lineStart [OF t ls] have d: "dropWhile isSpace s = s" "takeWhile isSpace s = []"
    by (cases s; simp)+
  from m ls d obtain x xs where x: "s = x # xs" "isBullet x" "xs \<noteq> []" "isSpace (hd xs)"
      and ms: "ms = [[], [], [x], takeWhile isSpace xs]"
    by (auto simp: matchAt_bullet split: if_splits list.splits)
  let ?w = "takeWhile isSpace xs" and ?tail = "dropWhile isSpace xs"
  have 1: "s = [x] @ ?w @ [] @ ?tail" using x(1) by simp
  have 2: "concat ms = [x] @ ?w @ []" by (simp add: ms)
  have 3: "expand [Lit ''- ''] ms = ''-'' @ '' '' @ []" by simp
  have 5: "\<forall>c\<in>set [x]. \<not> isSpace c" using x(2) bullet_not_space by simp
  have 6: "\<forall>c\<in>set ?w. isSpace c" by (meson set_takeWhileD)
  have 7: "?tail = [] \<or> \<not> isSpace (hd ?tail)" by (metis hd_dropWhile)
  have 8: "?w \<noteq> []" using x(3,4) by (cases xs) auto
  have 9: "last [x] \<noteq> CHR ''#''" using x(2) by (auto simp: isBullet_def)
  have 10: "\<forall>c\<in>set ''-''. \<not> isSpace c" by (simp add: isSpace_def)
  show "shaped [Lit ''- ''] s ms"
    by (rule shapedI [OF 1 2 3 _ 5 _ 10 6]) (use 7 8 9 in simp_all)
qed

lemma rewriting_numbered: "rewriting reNumbered [Piece 1, Lit ''. '']"
  unfolding rewriting_def
proof (intro allI impI, elim conjE)
  fix prev s ms
  assume m: "matchAt reNumbered prev s = Some ms"
  let ?ds = "takeWhile isDigit s"
  from m obtain xs where c: "s \<noteq> []" "isDigit (hd s)"
      and x: "dropWhile isDigit s = CHR ''.'' # xs" "xs \<noteq> []" "isSpace (hd xs)"
      and ms: "ms = [[], ?ds, ''.'', takeWhile isSpace xs]"
    by (auto simp: matchAt_numbered split: if_splits list.splits)
  let ?w = "takeWhile isSpace xs" and ?tail = "dropWhile isSpace xs"
  let ?u = "?ds @ ''.''"
  have "s = ?ds @ dropWhile isDigit s" by simp
  then have 1: "s = ?u @ ?w @ [] @ ?tail" using x(1) by simp
  have 2: "concat ms = ?u @ ?w @ []" by (simp add: ms)
  have 3: "expand [Piece 1, Lit ''. ''] ms = ?u @ '' '' @ []" by (simp add: ms)
  have "\<forall>c\<in>set ?ds. \<not> isSpace c" by (meson digit_not_space set_takeWhileD)
  then have 5: "\<forall>c\<in>set ?u. \<not> isSpace c" by (simp add: isSpace_def)
  have 6: "\<forall>c\<in>set ?w. isSpace c" by (meson set_takeWhileD)
  have 7: "?tail = [] \<or> \<not> isSpace (hd ?tail)" by (metis hd_dropWhile)
  have 8: "?w \<noteq> []" using x(2,3) by (cases xs) auto
  have 9: "last ?u \<noteq> CHR ''#''" by simp
  show "shaped [Piece 1, Lit ''. ''] s ms"
    by (rule shapedI [OF 1 2 3 _ 5 _ 5 6]) (use 7 8 9 in simp_all)
qed

subsection \<open>One step of a replacement in a tidy string\<close>

lemma ctx_lastOr: "a \<noteq> [] \<Longrightarrow> lastOr prev a = Some (last a)"
  by (simp add: lastOr_def)

lemma tidy_append:
  assumes "tidy prev (a @ b)" and "a \<noteq> []"
  shows "tidy (Some (last a)) b"
proof -
  have a: "a = butlast a @ [last a]" using assms(2) by simp
  have e: "ctx prev @ a @ b = (ctx prev @ butlast a) @ (ctx (Some (last a)) @ b)"
    by (subst a) (simp add: ctx_def)
  from assms(1) have "successively isolated (ctx prev @ a @ b)"
    and "successively notTwoSpaces (ctx prev @ a @ b)" and "TAB \<notin> set b"
    by (simp_all add: tidy_def)
  then show ?thesis
    unfolding e by (simp add: tidy_def successively_append_iff)
qed

lemma tidy_Cons: "tidy prev (c # cs) \<Longrightarrow> tidy (Some c) cs"
  using tidy_append [of prev "[c]" cs] by simp

lemma ends_suffix:
  assumes "a @ b = m @ t" and "length t \<le> length b"
  shows "\<exists>m'. b = m' @ t"
  using assms by (auto simp: append_eq_append_conv2)

lemma trailing_append:
  assumes "trailing prev (a @ b)" and "a \<noteq> []"
  shows "trailing (Some (last a)) b"
proof (cases "b = [] \<or> \<not> isSpace (last b)")
  case True
  then show ?thesis by (auto simp: trailing_def)
next
  case False
  with assms(1) obtain m where m: "ctx prev @ a @ b = m @ ''# ''"
    by (auto simp: trailing_def)
  have a: "a = butlast a @ [last a]" using assms(2) by simp
  have "(ctx prev @ butlast a) @ (last a # b) = m @ ''# ''"
    using m by (subst (asm) a) simp
  moreover have "length ''# '' \<le> length (last a # b)" using False by (cases b) auto
  ultimately obtain m' where "last a # b = m' @ ''# ''" using ends_suffix by blast
  then show ?thesis by (auto simp: trailing_def ctx_def)
qed

lemma scan_step [consumes 2, case_names stop copy rewrite]:
  assumes "rewriting re r" and "tidy prev s"
  obtains (stop) "s = []" and "replaceFrom re r 0 prev s = []"
  | (copy) c cs where "s = c # cs" and "matchAt re prev s = None"
      and "replaceFrom re r 0 prev s = c # replaceFrom re r 0 (Some c) cs"
  | (rewrite) ms u0 w v u tail where "matchAt re prev s = Some ms"
      and "s = u0 @ w @ v @ tail" and "concat ms = u0 @ w @ v"
      and "expand r ms = u @ '' '' @ v"
      and "u0 \<noteq> []" and "\<forall>c\<in>set u0. \<not> isSpace c"
      and "u \<noteq> []" and "\<forall>c\<in>set u. \<not> isSpace c"
      and "\<forall>c\<in>set w. isSpace c"
      and "v = [] \<longrightarrow> tail = [] \<or> \<not> isSpace (hd tail)"
      and "v \<noteq> [] \<longrightarrow> \<not> isSpace (hd v) \<and> (\<forall>c\<in>set v. \<not> isLineTerminator c)"
      and "v = [] \<and> tail = [] \<longrightarrow> last u = CHR ''#'' \<or> (w \<noteq> [] \<and> last u0 \<noteq> CHR ''#'')"
      and "replaceFrom re r 0 prev s
             = u @ '' '' @ v @ replaceFrom re r 0 (Some (last (u0 @ w @ v))) tail"
proof (cases "matchAt re prev s")
  case None
  show ?thesis
  proof (cases s)
    case Nil
    with None show ?thesis by (intro stop) simp_all
  next
    case (Cons c cs)
    with None show ?thesis by (intro copy [of c cs]) (simp_all del: replaceFrom.simps add: replaceFrom_nomatch)
  qed
next
  case (Some ms)
  with assms have "shaped r s ms" by (simp add: rewriting_def)
  then obtain u0 w v u tail where sh: "s = u0 @ w @ v @ tail" "concat ms = u0 @ w @ v"
      "expand r ms = u @ '' '' @ v"
      "u0 \<noteq> []" "\<forall>c\<in>set u0. \<not> isSpace c" "u \<noteq> []" "\<forall>c\<in>set u. \<not> isSpace c"
      "\<forall>c\<in>set w. isSpace c"
      "v = [] \<longrightarrow> tail = [] \<or> \<not> isSpace (hd tail)"
      "v \<noteq> [] \<longrightarrow> \<not> isSpace (hd v) \<and> (\<forall>c\<in>set v. \<not> isLineTerminator c)"
      "v = [] \<and> tail = [] \<longrightarrow> last u = CHR ''#'' \<or> (w \<noteq> [] \<and> last u0 \<noteq> CHR ''#'')"
    unfolding shaped_def by blast
  define m where "m = u0 @ w @ v"
  have m: "m \<noteq> []" "s = m @ tail" "concat ms = m" using sh(1,2,4) by (simp_all add: m_def)
  have n: "length (concat ms) = length m" "0 < length m" "length m \<le> length s"
    using m by simp_all
  have "s ! (length m - 1) = last m" using m(1,2) by (simp add: nth_append last_conv_nth)
  moreover have "drop (length m) s = tail" using m(2) by simp
  ultimately have "replaceFrom re r 0 prev s
      = expand r ms @ replaceFrom re r 0 (Some (last m)) tail"
    using replaceFrom_match [OF Some n, of r] by simp
  then have "replaceFrom re r 0 prev s
             = u @ '' '' @ v @ replaceFrom re r 0 (Some (last (u0 @ w @ v))) tail"
    using sh(3) by (simp add: m_def)
  with Some sh show ?thesis by (rule rewrite)
qed

lemma scan_head:
  assumes "rewriting re r" and "tidy prev s"
  shows "(replaceFrom re r 0 prev s = [] \<longleftrightarrow> s = [])
         \<and> (s \<noteq> [] \<and> \<not> isSpace (hd s) \<longrightarrow> \<not> isSpace (hd (replaceFrom re r 0 prev s)))"
  using assms(1,2)
proof (cases rule: scan_step)
  case stop
  then show ?thesis by simp
next
  case (copy c cs)
  then show ?thesis by simp
next
  case (rewrite ms u0 w v u tail)
  from rewrite(5,7,8,13) show ?thesis using rewrite(2) by (cases u) auto
qed

lemma scan_empty:
  assumes "rewriting re r" and "tidy prev s"
  shows "(replaceFrom re r 0 prev s = []) = (s = [])"
  using scan_head [OF assms] by blast

lemma scan_nonspace:
  assumes "rewriting re r" and "tidy prev s" and "s = [] \<or> \<not> isSpace (hd s)"
  shows "replaceFrom re r 0 prev s = [] \<or> \<not> isSpace (hd (replaceFrom re r 0 prev s))"
  using scan_head [OF assms(1,2)] assms(3) by blast

subsection \<open>A replacement keeps a string tidy\<close>

lemma successively_nonspace:
  assumes "\<And>x y. \<not> isSpace x \<or> \<not> isSpace y \<Longrightarrow> R x y" and "\<forall>c\<in>set u. \<not> isSpace c"
  shows "successively R u"
  using assms(2) by (induction u rule: induct_list012) (simp_all add: assms(1))

lemma successively_marker:
  assumes R: "\<And>x y. \<not> isSpace x \<or> \<not> isSpace y \<Longrightarrow> R x y"
    and u: "u \<noteq> []" "\<forall>c\<in>set u. \<not> isSpace c"
  shows "successively R (ctx prev @ u @ [y])"
proof -
  have 1: "successively R u" using R u(2) by (rule successively_nonspace)
  have 2: "\<not> isSpace (hd u)" "\<not> isSpace (last u)" using u by simp_all
  have 3: "successively R (u @ [y])" using 1 2 u(1) R by (simp add: successively_append_iff)
  show ?thesis
  proof (cases prev)
    case None
    with 3 show ?thesis by (simp add: ctx_def)
  next
    case (Some a)
    obtain x xs where x: "u = x # xs" using u(1) by (cases u) auto
    with 2 have "R a x" using R by simp
    with 3 x Some show ?thesis by (simp add: ctx_def)
  qed
qed

lemma successively_rewrite:
  assumes R: "\<And>x y. \<not> isSpace x \<or> \<not> isSpace y \<Longrightarrow> R x y"
    and u: "u \<noteq> []" "\<forall>c\<in>set u. \<not> isSpace c"
    and v: "successively R v" "v \<noteq> [] \<longrightarrow> \<not> isSpace (hd v) \<and> l = last v"
    and o: "successively R (l # out)" "v = [] \<longrightarrow> out = [] \<or> \<not> isSpace (hd out)"
  shows "successively R (ctx prev @ u @ '' '' @ v @ out)"
proof -
  have a: "successively R (ctx prev @ u @ '' '')" using R u by (rule successively_marker)
  have b: "successively R (v @ out)"
  proof (cases "v = []")
    case True
    with o(1) show ?thesis by (cases out) simp_all
  next
    case False
    with v(2) have "l = last v" by simp
    with o(1) v(1) False show ?thesis by (cases out) (simp_all add: successively_append_iff)
  qed
  have c: "v @ out = [] \<or> \<not> isSpace (hd (v @ out))" using v(2) o(2) by (cases v) auto
  define A where "A = ctx prev @ u @ '' ''"
  define B where "B = v @ out"
  have "successively R (A @ B)"
    unfolding successively_append_iff using a b c R by (fold A_def B_def) blast
  then show ?thesis by (simp add: A_def B_def)
qed

lemma successively_factor:
  "successively R (a @ b @ c) \<Longrightarrow> successively R b"
  by (simp add: successively_append_iff)

lemma isolated_nonspace: "\<not> isSpace x \<or> \<not> isSpace y \<Longrightarrow> isolated x y"
  using lineTerminator_isSpace by (auto simp: isolated_def)

lemma notTwoSpaces_nonspace: "\<not> isSpace x \<or> \<not> isSpace y \<Longrightarrow> notTwoSpaces x y"
  by (auto simp: notTwoSpaces_def isSpace_def)

lemma tidy_prefix:
  assumes "tidy prev (a @ b)"
  shows "tidy prev a"
proof -
  from assms have "successively isolated ((ctx prev @ a) @ b)"
    and "successively notTwoSpaces ((ctx prev @ a) @ b)"
    by (simp_all add: tidy_def)
  then have "successively isolated (ctx prev @ a)"
    and "successively notTwoSpaces (ctx prev @ a)"
    unfolding successively_append_iff by blast+
  moreover have "TAB \<notin> set a" using assms by (simp add: tidy_def)
  moreover have "prev \<noteq> None \<or> a = [] \<or> \<not> isSpace (hd a)"
    using assms by (cases a) (auto simp: tidy_def)
  ultimately show ?thesis by (simp add: tidy_def)
qed

lemma scan_tidy:
  assumes "rewriting re r"
  shows "tidy prev s \<Longrightarrow> tidy prev (replaceFrom re r 0 prev s)"
proof (induction "length s" arbitrary: s prev rule: less_induct)
  case less
  from assms less.prems show ?case
  proof (cases rule: scan_step)
    case stop
    with less.prems show ?thesis by simp
  next
    case (copy c cs)
    define out where "out = replaceFrom re r 0 (Some c) cs"
    from less.prems copy(1) have t: "tidy (Some c) cs" using tidy_Cons by blast
    with less.hyps [of cs "Some c"] copy(1) have "tidy (Some c) out" by (simp add: out_def)
    moreover have "tidy prev [c]" using less.prems copy(1) tidy_prefix [of prev "[c]" cs] by simp
    ultimately have "tidy prev (c # out)"
      by (cases prev; cases out) (simp_all add: tidy_def ctx_def)
    then show ?thesis unfolding copy(3) out_def [symmetric] .
  next
    case (rewrite ms u0 w v u tail)
    define l where "l = last (u0 @ w @ v)"
    define out where "out = replaceFrom re r 0 (Some l) tail"
    have s: "s = (u0 @ w @ v) @ tail" "u0 @ w @ v \<noteq> []" using rewrite(2,5) by simp_all
    then have t: "tidy (Some l) tail" unfolding l_def using less.prems tidy_append by metis
    have "length tail < length s" using s by simp
    with less.hyps [of tail "Some l"] t have to: "tidy (Some l) out" by (simp add: out_def)
    have h: "v = [] \<longrightarrow> out = [] \<or> \<not> isSpace (hd out)"
      unfolding out_def using scan_nonspace [OF assms t] rewrite(10) by blast
    have lv: "v \<noteq> [] \<longrightarrow> \<not> isSpace (hd v) \<and> l = last v"
      using rewrite(11) by (simp add: l_def)
    have e: "ctx prev @ s = (ctx prev @ u0 @ w) @ v @ tail" using rewrite(2) by simp
    have 1: "successively isolated (ctx prev @ u @ '' '' @ v @ out)"
    proof (rule successively_rewrite [OF isolated_nonspace rewrite(7,8) _ lv _ h])
      show "successively isolated v"
        using less.prems unfolding tidy_def e using successively_factor by blast
      show "successively isolated (l # out)" using to by (simp add: tidy_def ctx_def)
    qed
    have 2: "successively notTwoSpaces (ctx prev @ u @ '' '' @ v @ out)"
    proof (rule successively_rewrite [OF notTwoSpaces_nonspace rewrite(7,8) _ lv _ h])
      show "successively notTwoSpaces v"
        using less.prems unfolding tidy_def e using successively_factor by blast
      show "successively notTwoSpaces (l # out)" using to by (simp add: tidy_def ctx_def)
    qed
    have 3: "TAB \<notin> set (u @ '' '' @ v @ out)"
    proof -
      have "TAB \<notin> set u" using rewrite(8) by (auto simp: isSpace_def)
      moreover have "TAB \<notin> set v" using less.prems rewrite(2) by (simp add: tidy_def)
      moreover have "TAB \<notin> set out" using to by (simp add: tidy_def)
      ultimately show ?thesis by simp
    qed
    have 4: "\<not> isSpace (hd (u @ '' '' @ v @ out))" using rewrite(7,8) by (cases u) simp_all
    show ?thesis
      unfolding rewrite(13) l_def [symmetric] out_def [symmetric] tidy_def
      using 1 2 3 4 by blast
  qed
qed

lemma scan_trailing:
  assumes "rewriting re r"
  shows "tidy prev s \<Longrightarrow> trailing prev s \<Longrightarrow> trailing prev (replaceFrom re r 0 prev s)"
proof (induction "length s" arbitrary: s prev rule: less_induct)
  case less
  from assms less.prems(1) show ?case
  proof (cases rule: scan_step)
    case stop
    then show ?thesis by (simp add: trailing_def)
  next
    case (copy c cs)
    define out where "out = replaceFrom re r 0 (Some c) cs"
    from less.prems copy(1) have t: "tidy (Some c) cs" using tidy_Cons by blast
    have "trailing (Some c) cs" using less.prems(2) copy(1) trailing_append [of prev "[c]" cs] by simp
    with less.hyps [of cs "Some c"] t copy(1) have IH: "trailing (Some c) out" by (simp add: out_def)
    have z: "out = [] \<longleftrightarrow> cs = []" unfolding out_def using scan_empty [OF assms t] .
    show ?thesis
    proof (cases "cs = []")
      case True
      with z less.prems(2) copy(1) show ?thesis
        unfolding copy(3) out_def [symmetric] by simp
    next
      case False
      with z have n: "out \<noteq> []" by simp
      from IH n have "\<not> isSpace (last out) \<or> (\<exists>m. c # out = m @ ''# '')"
        by (simp add: trailing_def ctx_def)
      then show ?thesis
      proof
        assume "\<not> isSpace (last out)"
        then show ?thesis unfolding copy(3) out_def [symmetric] using n by (simp add: trailing_def)
      next
        assume "\<exists>m. c # out = m @ ''# ''"
        then obtain m where "c # out = m @ ''# ''" ..
        then have "ctx prev @ c # out = (ctx prev @ m) @ ''# ''" by simp
        then show ?thesis unfolding copy(3) out_def [symmetric] trailing_def by blast
      qed
    qed
  next
    case (rewrite ms u0 w v u tail)
    define l where "l = last (u0 @ w @ v)"
    define out where "out = replaceFrom re r 0 (Some l) tail"
    have s: "s = (u0 @ w @ v) @ tail" "u0 @ w @ v \<noteq> []" using rewrite(2,5) by simp_all
    then have t: "tidy (Some l) tail" unfolding l_def using less.prems(1) tidy_append by metis
    have tr: "trailing (Some l) tail"
      unfolding l_def using less.prems(2) s trailing_append by metis
    have "length tail < length s" using s by simp
    with less.hyps [of tail "Some l"] t tr have IH: "trailing (Some l) out" by (simp add: out_def)
    have z: "out = [] \<longleftrightarrow> tail = []" unfolding out_def using scan_empty [OF assms t] .
    have h: "v = [] \<longrightarrow> out = [] \<or> \<not> isSpace (hd out)"
      unfolding out_def using scan_nonspace [OF assms t] rewrite(10) by blast
    have goal: "trailing prev (u @ '' '' @ v @ out)"
    proof (cases "out = []")
      case False
      from IH False have "\<not> isSpace (last out) \<or> (\<exists>m. l # out = m @ ''# '')"
        by (simp add: trailing_def ctx_def)
      then show ?thesis
      proof
        assume "\<not> isSpace (last out)"
        then show ?thesis using False by (simp add: trailing_def)
      next
        assume "\<exists>m. l # out = m @ ''# ''"
        then obtain m where m: "l # out = m @ ''# ''" ..
        show ?thesis
        proof (cases "length out = 1")
          case True
          with m have o: "out = '' ''" and l: "l = CHR ''#''" by (cases out; cases m; auto)+
          with h have "v \<noteq> []" by (auto simp: isSpace_def)
          then have "last v = CHR ''#''" using l by (simp add: l_def)
          with \<open>v \<noteq> []\<close> have "v = butlast v @ ''#''" by (metis append_butlast_last_id)
          then have "ctx prev @ u @ '' '' @ v @ out = (ctx prev @ u @ '' '' @ butlast v) @ ''# ''"
            using o by simp
          then show ?thesis unfolding trailing_def by blast
        next
          case False
          moreover have "length out \<noteq> 0" using \<open>out \<noteq> []\<close> by simp
          ultimately have "2 \<le> length out" by linarith
          then have "length ''# '' \<le> length out" by simp
          with m have "\<exists>m'. out = m' @ ''# ''" using ends_suffix [of "[l]" out m "''# ''"] by simp
          then obtain m' where "out = m' @ ''# ''" ..
          then have "ctx prev @ u @ '' '' @ v @ out = (ctx prev @ u @ '' '' @ v @ m') @ ''# ''"
            by simp
          then show ?thesis unfolding trailing_def by blast
        qed
      qed
    next
      case True
      with z have tl: "tail = []" by simp
      show ?thesis
      proof (cases "v = []")
        case False
        have sv: "ctx prev @ s = (ctx prev @ u0 @ w) @ v" using rewrite(2) tl by simp
        from less.prems(2) False rewrite(2) tl
        have "\<not> isSpace (last v) \<or> (\<exists>m. ctx prev @ s = m @ ''# '')"
          by (simp add: trailing_def)
        then show ?thesis
        proof
          assume "\<not> isSpace (last v)"
          then show ?thesis using False True by (simp add: trailing_def)
        next
          assume "\<exists>m. ctx prev @ s = m @ ''# ''"
          then obtain m where m: "(ctx prev @ u0 @ w) @ v = m @ ''# ''" using sv by auto
          have "length v \<noteq> 1"
          proof
            assume "length v = 1"
            then obtain x where "v = [x]" by (cases v) auto
            with m rewrite(11) show False by (auto simp: isSpace_def)
          qed
          moreover have "length v \<noteq> 0" using False by simp
          ultimately have "2 \<le> length v" by linarith
          then have "length ''# '' \<le> length v" by simp
          with m obtain m' where "v = m' @ ''# ''" using ends_suffix by blast
          then have "ctx prev @ u @ '' '' @ v @ out = (ctx prev @ u @ '' '' @ m') @ ''# ''"
            using True by simp
          then show ?thesis unfolding trailing_def by blast
        qed
      next
        case v: True
        have "last u = CHR ''#''"
        proof (rule ccontr)
          assume n: "last u \<noteq> CHR ''#''"
          with rewrite(12) v tl have w: "w \<noteq> []" "last u0 \<noteq> CHR ''#''" by simp_all
          then have "isSpace (last w)" using rewrite(9) by simp
          with less.prems(2) rewrite(2) v tl w(1)
          obtain m where m: "(ctx prev @ u0) @ w = m @ ''# ''" by (auto simp: trailing_def)
          have "length w = 1"
          proof (rule ccontr)
            assume "length w \<noteq> 1"
            moreover have "length w \<noteq> 0" using w(1) by simp
            ultimately have "2 \<le> length w" by linarith
            then have "length ''# '' \<le> length w" by simp
            with m obtain m' where "w = m' @ ''# ''" using ends_suffix by blast
            with rewrite(9) show False by (auto simp: isSpace_def)
          qed
          then obtain x where "w = [x]" by (cases w) auto
          with m have "ctx prev @ u0 = m @ ''#''" by simp
          with rewrite(5) have "last u0 = CHR ''#''"
            by (metis last_appendR last_snoc)
          with w(2) show False by contradiction
        qed
        with rewrite(7) have "u = butlast u @ ''#''" by (metis append_butlast_last_id)
        then have "ctx prev @ u @ '' '' @ v @ out = (ctx prev @ butlast u) @ ''# ''"
          using v True by simp
        then show ?thesis unfolding trailing_def by blast
      qed
    qed
    show ?thesis unfolding rewrite(13) l_def [symmetric] out_def [symmetric] by (rule goal)
  qed
qed

subsection \<open>Properties of every position of a string\<close>

lemma everywhere_head: "everywhere P prev s \<Longrightarrow> P prev s"
  unfolding everywhere_def using lastOr_Nil [of prev] by (metis append_Nil)

lemma everywhere_suffix:
  assumes "everywhere P prev (a @ b)"
  shows "everywhere P (lastOr prev a) b"
  unfolding everywhere_def
proof (intro allI impI)
  fix ys zs
  assume "b = ys @ zs"
  then have "a @ b = (a @ ys) @ zs" by simp
  with assms have "P (lastOr prev (a @ ys)) zs" unfolding everywhere_def by blast
  then show "P (lastOr (lastOr prev a) ys) zs" by (simp add: lastOr_append)
qed

lemma everywhere_append:
  assumes "\<forall>ys zs. a = ys @ zs \<and> zs \<noteq> [] \<longrightarrow> P (lastOr prev ys) (zs @ b)"
    and "everywhere P (lastOr prev a) b"
  shows "everywhere P prev (a @ b)"
  unfolding everywhere_def
proof (intro allI impI)
  fix ys zs
  assume "a @ b = ys @ zs"
  then obtain us where "(a = ys @ us \<and> us @ b = zs) \<or> (a @ us = ys \<and> b = us @ zs)"
    by (auto simp: append_eq_append_conv2)
  then consider (inner) us where "a = ys @ us" and "us @ b = zs" and "us \<noteq> []"
    | (outer) us where "a @ us = ys" and "b = us @ zs"
    by (cases "us = []") auto
  then show "P (lastOr prev ys) zs"
  proof cases
    case inner
    with assms(1) show ?thesis by blast
  next
    case outer
    from assms(2) outer(2) have "P (lastOr (lastOr prev a) us) zs"
      unfolding everywhere_def by blast
    then show ?thesis unfolding outer(1) [symmetric] lastOr_append .
  qed
qed

lemma everywhere_Cons:
  assumes "P prev (c # s)" and "everywhere P (Some c) s"
  shows "everywhere P prev (c # s)"
proof -
  have "everywhere P prev ([c] @ s)"
  proof (rule everywhere_append)
    show "\<forall>ys zs. [c] = ys @ zs \<and> zs \<noteq> [] \<longrightarrow> P (lastOr prev ys) (zs @ s)"
      using assms(1) by (auto simp: Cons_eq_append_conv lastOr_def)
    show "everywhere P (lastOr prev [c]) s" using assms(2) by (simp add: lastOr_def)
  qed
  then show ?thesis by simp
qed

lemma everywhere_context:
  assumes "everywhere P p s" and "P q s"
  shows "everywhere P q s"
  unfolding everywhere_def
proof (intro allI impI)
  fix ys zs
  assume s: "s = ys @ zs"
  show "P (lastOr q ys) zs"
  proof (cases "ys = []")
    case True
    with s assms(2) show ?thesis by (simp add: lastOr_def)
  next
    case False
    then have "lastOr q ys = lastOr p ys" by (simp add: lastOr_def)
    with assms(1) s show ?thesis unfolding everywhere_def by metis
  qed
qed

lemma everywhere_mono:
  assumes "everywhere P prev s" and "\<And>p z. P p z \<Longrightarrow> Q p z"
  shows "everywhere Q prev s"
  using assms unfolding everywhere_def by blast

lemma everywhere_Nil: "everywhere P prev [] = P prev []"
  by (simp add: everywhere_def lastOr_def)

subsection \<open>Line markers after a replacement\<close>

lemma scan_space:
  assumes "rewriting re r" and "tidy prev (y # rest)" and "isSpace y"
  shows "replaceFrom re r 0 prev (y # rest) = y # replaceFrom re r 0 (Some y) rest"
  using assms(1,2)
proof (cases rule: scan_step)
  case stop
  then show ?thesis by simp
next
  case (copy c cs)
  then show ?thesis by simp
next
  case (rewrite ms u0 w v u tail)
  from rewrite(2,5) have "hd u0 = y" by (cases u0) auto
  with rewrite(5,6) assms(3) show ?thesis by (cases u0) auto
qed

lemma scan_lineMarker:
  assumes rw: "rewriting re r"
    and A: "\<And>prev zs ms. tidy prev zs \<Longrightarrow> matchAt re prev zs = Some ms
              \<Longrightarrow> \<not> K (hd (expand r ms)) \<or> take 2 (expand r ms) = [k0, CHR '' '']"
  shows "tidy prev s
    \<Longrightarrow> everywhere (\<lambda>p z. matchAt re p z = None \<longrightarrow> lineMarker K always k0 p z) prev s
    \<Longrightarrow> everywhere (lineMarker K always k0) prev (replaceFrom re r 0 prev s)"
proof (induction "length s" arbitrary: s prev rule: less_induct)
  case less
  let ?Q = "\<lambda>p z. matchAt re p z = None \<longrightarrow> lineMarker K always k0 p z"
  from rw less.prems(1) show ?case
  proof (cases rule: scan_step)
    case stop
    then show ?thesis by (simp add: everywhere_Nil lineMarker_def)
  next
    case (copy c cs)
    define out where "out = replaceFrom re r 0 (Some c) cs"
    from less.prems(1) copy(1) have t: "tidy (Some c) cs" using tidy_Cons by blast
    have "everywhere ?Q (lastOr prev [c]) cs"
      using less.prems(2) copy(1) everywhere_suffix [of ?Q prev "[c]" cs] by simp
    then have "everywhere ?Q (Some c) cs" by (simp add: lastOr_def)
    with less.hyps [of cs "Some c"] t copy(1)
    have IH: "everywhere (lineMarker K always k0) (Some c) out" by (simp add: out_def)
    have hd: "lineMarker K always k0 prev (c # out)"
      unfolding lineMarker_def
    proof
      assume tr: "atLineStart prev \<and> c # out \<noteq> [] \<and> K (hd (c # out))
                  \<and> (always \<or> (tl (c # out) \<noteq> [] \<and> isSpace (hd (tl (c # out)))))"
      have "out \<noteq> [] \<and> isSpace (hd out) \<longrightarrow> cs \<noteq> [] \<and> isSpace (hd cs)"
        unfolding out_def using scan_head [OF rw t] by blast
      moreover from tr have "atLineStart prev" and "K c"
        and "always \<or> (out \<noteq> [] \<and> isSpace (hd out))" by simp_all
      ultimately have "atLineStart prev \<and> c # cs \<noteq> [] \<and> K (hd (c # cs))
                  \<and> (always \<or> (tl (c # cs) \<noteq> [] \<and> isSpace (hd (tl (c # cs)))))"
        by (simp only: list.sel) blast
      moreover have "lineMarker K always k0 prev (c # cs)"
        using everywhere_head [OF less.prems(2)] copy(1,2) by simp
      ultimately obtain rest where r: "c # cs = k0 # CHR '' '' # rest"
          and n: "rest = [] \<or> \<not> isSpace (hd rest)"
        unfolding lineMarker_def by blast
      from r have c: "c = k0" and cs: "cs = CHR '' '' # rest" by simp_all
      have sp: "isSpace (CHR '' '')" by (simp add: isSpace_def)
      have t': "tidy (Some (CHR '' '')) rest" using t cs tidy_Cons by blast
      have "out = CHR '' '' # replaceFrom re r 0 (Some (CHR '' '')) rest"
        unfolding out_def cs using scan_space [OF rw _ sp] t cs by blast
      moreover have "replaceFrom re r 0 (Some (CHR '' '')) rest = []
                     \<or> \<not> isSpace (hd (replaceFrom re r 0 (Some (CHR '' '')) rest))"
        using scan_nonspace [OF rw t' n] .
      ultimately show "\<exists>rest. c # out = k0 # CHR '' '' # rest \<and> (rest = [] \<or> \<not> isSpace (hd rest))"
        using c by blast
    qed
    show ?thesis
      unfolding copy(3) out_def [symmetric] using hd IH by (rule everywhere_Cons)
  next
    case (rewrite ms u0 w v u tail)
    define l where "l = last (u0 @ w @ v)"
    define out where "out = replaceFrom re r 0 (Some l) tail"
    define a where "a = u @ '' '' @ v"
    have s: "s = (u0 @ w @ v) @ tail" "u0 @ w @ v \<noteq> []" using rewrite(2,5) by simp_all
    then have t: "tidy (Some l) tail" unfolding l_def using less.prems(1) tidy_append by metis
    have "everywhere ?Q prev ((u0 @ w @ v) @ tail)" using less.prems(2) unfolding s(1) [symmetric] .
    then have "everywhere ?Q (lastOr prev (u0 @ w @ v)) tail" by (rule everywhere_suffix)
    then have "everywhere ?Q (Some l) tail" unfolding l_def ctx_lastOr [OF s(2)] .
    moreover have "length tail < length s" using s by simp
    ultimately have IH: "everywhere (lineMarker K always k0) (Some l) out"
      using less.hyps [of tail "Some l"] t by (simp add: out_def)
    have h: "v = [] \<longrightarrow> out = [] \<or> \<not> isSpace (hd out)"
      unfolding out_def using scan_nonspace [OF rw t] rewrite(10) by blast
    have "\<forall>c\<in>set u. \<not> isLineTerminator c" using rewrite(8) lineTerminator_isSpace by blast
    moreover have "\<forall>c\<in>set v. \<not> isLineTerminator c" using rewrite(11) by (cases v) simp_all
    moreover have "\<not> isLineTerminator (CHR '' '')" by (simp add: isLineTerminator_def)
    ultimately have nolt: "\<forall>c\<in>set a. \<not> isLineTerminator c" by (auto simp: a_def)
    have an: "a \<noteq> []" by (simp add: a_def)
    have "everywhere (lineMarker K always k0) prev (a @ out)"
    proof (rule everywhere_append)
      show "\<forall>ys zs. a = ys @ zs \<and> zs \<noteq> [] \<longrightarrow> lineMarker K always k0 (lastOr prev ys) (zs @ out)"
      proof (intro allI impI, elim conjE)
        fix ys zs
        assume yz: "a = ys @ zs" and "zs \<noteq> []"
        show "lineMarker K always k0 (lastOr prev ys) (zs @ out)"
        proof (cases "ys = []")
          case False
          then have "last ys \<in> set a" using yz by simp
          with nolt have "\<not> isLineTerminator (last ys)" by blast
          then show ?thesis using False by (simp add: lineMarker_def lastOr_def atLineStart_def)
        next
          case True
          with yz have zs: "zs = u @ '' '' @ v" by (simp add: a_def)
          have hz: "hd (zs @ out) = hd u" using zs rewrite(7) by simp
          from A [OF less.prems(1) rewrite(1)] rewrite(4)
          have "\<not> K (hd (u @ '' '' @ v)) \<or> take 2 (u @ '' '' @ v) = [k0, CHR '' '']" by simp
          then show ?thesis
          proof
            assume "\<not> K (hd (u @ '' '' @ v))"
            then have "\<not> K (hd (zs @ out))" using hz rewrite(7) by simp
            then show ?thesis unfolding lineMarker_def by blast
          next
            assume k: "take 2 (u @ '' '' @ v) = [k0, CHR '' '']"
            have u: "u = [k0]"
            proof (cases u)
              case Nil
              with rewrite(7) show ?thesis by simp
            next
              case (Cons x xs)
              show ?thesis
              proof (cases xs)
                case Nil
                with Cons k show ?thesis by simp
              next
                case (Cons x' xs')
                with \<open>u = x # xs\<close> k have "x' = CHR '' ''" by simp
                with Cons \<open>u = x # xs\<close> rewrite(8) show ?thesis by (simp add: isSpace_def)
              qed
            qed
            have "v @ out = [] \<or> \<not> isSpace (hd (v @ out))"
              using h rewrite(11) by (cases v) auto
            moreover have "zs @ out = k0 # CHR '' '' # (v @ out)"
              using zs u by simp
            ultimately show ?thesis unfolding lineMarker_def by blast
          qed
        qed
      qed
      have "\<not> isLineTerminator (last a)" using nolt an by simp
      then have "lineMarker K always k0 (Some (last a)) out"
        by (simp add: lineMarker_def atLineStart_def)
      with IH have "everywhere (lineMarker K always k0) (Some (last a)) out"
        by (rule everywhere_context)
      then show "everywhere (lineMarker K always k0) (lastOr prev a) out"
        using an by (simp add: lastOr_def)
    qed
    then show ?thesis
      unfolding rewrite(13) l_def [symmetric] out_def [symmetric] by (simp add: a_def)
  qed
qed

subsection \<open>The markers of \<open>convertToMarkdown\<close> after each replacement\<close>

lemma heading_lineMarker:
  assumes "tidy prev s"
  shows "everywhere (lineMarker isHash True (CHR ''#'')) prev
           (replaceFrom reHeading [Lit ''# '', Piece 3] 0 prev s)"
proof (rule scan_lineMarker [OF rewriting_heading _ assms])
  show "\<not> isHash (hd (expand [Lit ''# '', Piece 3] ms))
        \<or> take 2 (expand [Lit ''# '', Piece 3] ms) = [CHR ''#'', CHR '' '']" for ms
    by simp
  show "everywhere (\<lambda>p z. matchAt reHeading p z = None
          \<longrightarrow> lineMarker isHash True (CHR ''#'') p z) prev s"
    unfolding everywhere_def by (auto simp: matchAt_heading lineMarker_def)
qed

lemma bullet_lineMarker:
  assumes "tidy prev s"
  shows "everywhere (lineMarker isBullet False (CHR ''-'')) prev
           (replaceFrom reBullet [Lit ''- ''] 0 prev s)"
proof (rule scan_lineMarker [OF rewriting_bullet _ assms])
  show "\<not> isBullet (hd (expand [Lit ''- ''] ms))
        \<or> take 2 (expand [Lit ''- ''] ms) = [CHR ''-'', CHR '' '']" for ms
    by simp
  have "lineMarker isBullet False (CHR ''-'') p z" if "matchAt reBullet p z = None" for p z
    unfolding lineMarker_def
  proof
    assume tr: "atLineStart p \<and> z \<noteq> [] \<and> isBullet (hd z)
                \<and> (False \<or> (tl z \<noteq> [] \<and> isSpace (hd (tl z))))"
    then obtain x xs where z: "z = x # xs" by (cases z) auto
    with tr have "dropWhile isSpace z = x # xs" using bullet_not_space by simp
    with tr z have "matchAt reBullet p z \<noteq> None" by (simp add: matchAt_bullet)
    with that show "\<exists>rest. z = CHR ''-'' # CHR '' '' # rest \<and> (rest = [] \<or> \<not> isSpace (hd rest))"
      by contradiction
  qed
  then show "everywhere (\<lambda>p z. matchAt reBullet p z = None
          \<longrightarrow> lineMarker isBullet False (CHR ''-'') p z) prev s"
    unfolding everywhere_def by blast
qed

lemma lineMarker_kept:
  assumes "rewriting re r"
    and "\<And>prev zs ms. tidy prev zs \<Longrightarrow> matchAt re prev zs = Some ms \<Longrightarrow> \<not> K (hd (expand r ms))"
    and "tidy prev s" and "everywhere (lineMarker K always k0) prev s"
  shows "everywhere (lineMarker K always k0) prev (replaceFrom re r 0 prev s)"
proof (rule scan_lineMarker [OF assms(1) _ assms(3)])
  show "\<not> K (hd (expand r ms)) \<or> take 2 (expand r ms) = [k0, CHR '' '']"
    if "tidy prev zs" and "matchAt re prev zs = Some ms" for prev zs ms
    using assms(2) that by blast
  show "everywhere (\<lambda>p z. matchAt re p z = None \<longrightarrow> lineMarker K always k0 p z) prev s"
    using assms(4) by (rule everywhere_mono) simp
qed

lemma numbered_match:
  assumes "matchAt reNumbered prev s = Some ms"
  obtains ds wr tail where "s = ds @ ''.'' @ wr @ tail" and "ms = [[], ds, ''.'', wr]"
    and "ds \<noteq> []" and "\<forall>c\<in>set ds. isDigit c" and "hd ds = hd s"
    and "wr \<noteq> []" and "\<forall>c\<in>set wr. isSpace c"
    and "tail = [] \<or> \<not> isSpace (hd tail)" and "atWordBoundary prev s"
proof -
  let ?ds = "takeWhile isDigit s"
  from assms obtain xs where c: "atWordBoundary prev s" "s \<noteq> []" "isDigit (hd s)"
      and x: "dropWhile isDigit s = CHR ''.'' # xs" "xs \<noteq> []" "isSpace (hd xs)"
      and ms: "ms = [[], ?ds, ''.'', takeWhile isSpace xs]"
    by (auto simp: matchAt_numbered split: if_splits list.splits)
  let ?wr = "takeWhile isSpace xs" and ?tail = "dropWhile isSpace xs"
  have "s = ?ds @ dropWhile isDigit s" by simp
  then have 1: "s = ?ds @ ''.'' @ ?wr @ ?tail" using x(1) by simp
  have 3: "?ds \<noteq> []" "hd ?ds = hd s" using c(2,3) by (cases s; simp)+
  have 4: "\<forall>c\<in>set ?ds. isDigit c" using set_takeWhileD [of _ isDigit s] by blast
  have 6: "?wr \<noteq> []" using x(2,3) by (cases xs) auto
  have 7: "\<forall>c\<in>set ?wr. isSpace c" using set_takeWhileD [of _ isSpace xs] by blast
  have 8: "?tail = [] \<or> \<not> isSpace (hd ?tail)" using hd_dropWhile [of isSpace xs] by blast
  from 1 ms 3(1) 4 3(2) 6 7 8 c(1) show ?thesis by (rule that)
qed

lemma numbered_starts_with_digit:
  assumes "matchAt reNumbered prev zs = Some ms"
  shows "isDigit (hd (expand [Piece 1, Lit ''. ''] ms))"
proof -
  from assms obtain ds wr tail where "ms = [[], ds, ''.'', wr]" and "ds \<noteq> []"
      and "\<forall>c\<in>set ds. isDigit c"
    by (rule numbered_match)
  then show ?thesis by (cases ds) simp_all
qed

lemma digit_not_hash: "isDigit c \<Longrightarrow> \<not> isHash c"
  by (auto simp: isDigit_def isHash_def)

lemma digit_not_bullet: "isDigit c \<Longrightarrow> \<not> isBullet c"
  by (auto simp: isDigit_def isBullet_def)

lemma hash_kept_by_bullet:
  assumes "tidy prev s" and "everywhere (lineMarker isHash True (CHR ''#'')) prev s"
  shows "everywhere (lineMarker isHash True (CHR ''#'')) prev
           (replaceFrom reBullet [Lit ''- ''] 0 prev s)"
  by (rule lineMarker_kept [OF rewriting_bullet _ assms]) (simp add: isHash_def)

lemma hash_kept_by_numbered:
  assumes "tidy prev s" and "everywhere (lineMarker isHash True (CHR ''#'')) prev s"
  shows "everywhere (lineMarker isHash True (CHR ''#'')) prev
           (replaceFrom reNumbered [Piece 1, Lit ''. ''] 0 prev s)"
  by (rule lineMarker_kept [OF rewriting_numbered _ assms])
    (use numbered_starts_with_digit digit_not_hash in blast)

lemma bullet_kept_by_numbered:
  assumes "tidy prev s" and "everywhere (lineMarker isBullet False (CHR ''-'')) prev s"
  shows "everywhere (lineMarker isBullet False (CHR ''-'')) prev
           (replaceFrom reNumbered [Piece 1, Lit ''. ''] 0 prev s)"
  by (rule lineMarker_kept [OF rewriting_numbered _ assms])
    (use numbered_starts_with_digit digit_not_bullet in blast)

subsection \<open>Numbers after the replacement of \<open>reNumbered\<close>\<close>

lemma digit_wordChar: "isDigit c \<Longrightarrow> isWordChar c"
  by (simp add: isWordChar_def)

lemma space_not_wordChar: "isSpace c \<Longrightarrow> \<not> isWordChar c"
  by (auto simp: isSpace_def isWordChar_def isDigit_def)

lemma numbered_None_inside_digits:
  assumes "isDigit c"
  shows "matchAt reNumbered (Some c) cs = None"
proof (cases "cs \<noteq> [] \<and> isDigit (hd cs)")
  case True
  then obtain x xs where "cs = x # xs" and "isDigit x" by (cases cs) auto
  with assms have "\<not> atWordBoundary (Some c) cs"
    by (simp add: atWordBoundary_def digit_wordChar)
  then show ?thesis by (simp add: matchAt_numbered)
next
  case False
  then show ?thesis by (auto simp: matchAt_numbered)
qed

lemma numbered_digit_run:
  "matchAt reNumbered prev s = None \<Longrightarrow>
     replaceFrom reNumbered r 0 prev s
       = takeWhile isDigit s
         @ replaceFrom reNumbered r 0 (lastOr prev (takeWhile isDigit s)) (dropWhile isDigit s)"
proof (induction s arbitrary: prev)
  case Nil
  then show ?case by (simp add: lastOr_def)
next
  case (Cons c cs)
  show ?case
  proof (cases "isDigit c")
    case False
    then show ?thesis by (simp del: replaceFrom.simps add: lastOr_def)
  next
    case True
    have "replaceFrom reNumbered r 0 prev (c # cs) = c # replaceFrom reNumbered r 0 (Some c) cs"
      using Cons.prems by (rule replaceFrom_nomatch)
    also have "replaceFrom reNumbered r 0 (Some c) cs
        = takeWhile isDigit cs
          @ replaceFrom reNumbered r 0 (lastOr (Some c) (takeWhile isDigit cs)) (dropWhile isDigit cs)"
      by (rule Cons.IH) (rule numbered_None_inside_digits [OF True])
    finally show ?thesis using True by (simp del: replaceFrom.simps add: lastOr_Cons)
  qed
qed

lemma atWordBoundary_head:
  "s \<noteq> [] \<Longrightarrow> t \<noteq> [] \<Longrightarrow> hd s = hd t \<Longrightarrow> atWordBoundary prev s = atWordBoundary prev t"
  by (cases s; cases t) (simp_all add: atWordBoundary_def)

lemma numbered_copy_head:
  assumes t: "tidy prev s" and n: "matchAt reNumbered prev s = None"
  shows "numberMarker prev (replaceFrom reNumbered [Piece 1, Lit ''. ''] 0 prev s)"
  unfolding numberMarker_def
proof
  let ?r = "[Piece 1, Lit ''. '']"
  let ?out = "replaceFrom reNumbered ?r 0 prev s"
  let ?ds = "takeWhile isDigit s" and ?rest = "dropWhile isDigit s"
  assume tr: "atWordBoundary prev ?out \<and> ?out \<noteq> [] \<and> isDigit (hd ?out)
     \<and> (\<exists>xs. dropWhile isDigit ?out = CHR ''.'' # xs \<and> xs \<noteq> [] \<and> isSpace (hd xs))"
  then obtain xs where xs: "dropWhile isDigit ?out = CHR ''.'' # xs" "xs \<noteq> []" "isSpace (hd xs)"
    by blast
  from tr have "s \<noteq> []" using scan_empty [OF rewriting_numbered t] by blast
  then obtain c cs where s: "s = c # cs" by (cases s) auto
  have out: "?out = c # replaceFrom reNumbered ?r 0 (Some c) cs"
    unfolding s using n [unfolded s] by (rule replaceFrom_nomatch)
  then have hd: "hd ?out = hd s" by (simp add: s)
  with tr have dg: "isDigit (hd s)" by simp
  have wb: "atWordBoundary prev s"
    using tr atWordBoundary_head [of ?out s prev] hd \<open>s \<noteq> []\<close> by blast
  have run: "?out = ?ds @ replaceFrom reNumbered ?r 0 (lastOr prev ?ds) ?rest"
    using n by (rule numbered_digit_run)
  have "dropWhile isDigit (?ds @ replaceFrom reNumbered ?r 0 (lastOr prev ?ds) ?rest)
          = dropWhile isDigit (replaceFrom reNumbered ?r 0 (lastOr prev ?ds) ?rest)"
    by (rule dropWhile_append2) (use set_takeWhileD in fast)
  with run xs(1)
  have dr: "dropWhile isDigit (replaceFrom reNumbered ?r 0 (lastOr prev ?ds) ?rest) = CHR ''.'' # xs"
    by simp
  show "\<exists>rest. dropWhile isDigit ?out = CHR ''.'' # CHR '' '' # rest
                 \<and> (rest = [] \<or> \<not> isSpace (hd rest))"
  proof (cases ?rest)
    case Nil
    have "matchAt reNumbered (lastOr prev ?ds) [] = None" by (simp add: matchAt_numbered)
    with dr Nil show ?thesis by simp
  next
    case (Cons x rest2)
    then have nd: "\<not> isDigit x" using hd_dropWhile [of isDigit s] by force
    then have "matchAt reNumbered (lastOr prev ?ds) (x # rest2) = None"
      by (simp add: matchAt_numbered)
    then have e: "replaceFrom reNumbered ?r 0 (lastOr prev ?ds) (x # rest2)
        = x # replaceFrom reNumbered ?r 0 (Some x) rest2"
      by (rule replaceFrom_nomatch)
    have "dropWhile isDigit (x # replaceFrom reNumbered ?r 0 (Some x) rest2) = CHR ''.'' # xs"
      using dr unfolding Cons e .
    with nd have x: "x = CHR ''.''" and o3: "replaceFrom reNumbered ?r 0 (Some x) rest2 = xs"
      by (auto simp del: replaceFrom.simps)
    have "s = (?ds @ [x]) @ rest2" using Cons by (metis append.assoc append_Cons append_Nil takeWhile_dropWhile_id)
    with t have "tidy (Some (last (?ds @ [x]))) rest2" using tidy_append [of prev "?ds @ [x]" rest2] by simp
    then have t2: "tidy (Some x) rest2" by simp
    from scan_head [OF rewriting_numbered t2] o3 xs(2,3)
    have "rest2 \<noteq> [] \<and> isSpace (hd rest2)" by auto
    with wb dg \<open>s \<noteq> []\<close> Cons x have "matchAt reNumbered prev s \<noteq> None"
      by (simp add: matchAt_numbered)
    with n show ?thesis by contradiction
  qed
qed

lemma numberMarker_context:
  assumes "numberMarker (Some a) z" and "\<not> isWordChar a" and "\<not> isWordChar b"
  shows "numberMarker (Some b) z"
  using assms by (simp add: numberMarker_def atWordBoundary_def)

lemma numbered_numberMarker:
  "tidy prev s
   \<Longrightarrow> everywhere numberMarker prev (replaceFrom reNumbered [Piece 1, Lit ''. ''] 0 prev s)"
proof (induction "length s" arbitrary: s prev rule: less_induct)
  case less
  let ?r = "[Piece 1, Lit ''. '']"
  show ?case
  proof (cases "matchAt reNumbered prev s")
    case None
    show ?thesis
    proof (cases s)
      case Nil
      with None show ?thesis by (simp add: everywhere_Nil numberMarker_def)
    next
      case (Cons c cs)
      have out: "replaceFrom reNumbered ?r 0 prev s = c # replaceFrom reNumbered ?r 0 (Some c) cs"
        unfolding Cons using None [unfolded Cons] by (rule replaceFrom_nomatch)
      have "tidy (Some c) cs" using less.prems Cons tidy_Cons by blast
      with less.hyps [of cs "Some c"] Cons
      have "everywhere numberMarker (Some c) (replaceFrom reNumbered ?r 0 (Some c) cs)" by simp
      moreover have "numberMarker prev (c # replaceFrom reNumbered ?r 0 (Some c) cs)"
        using numbered_copy_head [OF less.prems None] unfolding out .
      ultimately show ?thesis unfolding out by (rule everywhere_Cons [rotated])
    qed
  next
    case (Some ms)
    then obtain ds wr tail where s: "s = ds @ ''.'' @ wr @ tail" and ms: "ms = [[], ds, ''.'', wr]"
      and ds: "ds \<noteq> []" "\<forall>c\<in>set ds. isDigit c"
      and wr: "wr \<noteq> []" "\<forall>c\<in>set wr. isSpace c"
      and tl: "tail = [] \<or> \<not> isSpace (hd tail)"
      by (rule numbered_match)
    define m where "m = ds @ ''.'' @ wr"
    define out where "out = replaceFrom reNumbered ?r 0 (Some (last wr)) tail"
    have m: "m \<noteq> []" "s = m @ tail" "concat ms = m" "last m = last wr"
      using s ms wr(1) by (simp_all add: m_def)
    have n: "length (concat ms) = length m" "0 < length m" "length m \<le> length s"
      using m by simp_all
    have "s ! (length m - 1) = last m" using m(1,2) by (simp add: nth_append last_conv_nth)
    moreover have "drop (length m) s = tail" using m(2) by simp
    ultimately have "replaceFrom reNumbered ?r 0 prev s
        = expand ?r ms @ replaceFrom reNumbered ?r 0 (Some (last m)) tail"
      using replaceFrom_match [OF Some n, of ?r] by simp
    then have eq: "replaceFrom reNumbered ?r 0 prev s = (ds @ ''. '') @ out"
      by (simp add: ms m(4) out_def)
    have t: "tidy (Some (last wr)) tail"
      using less.prems m(1,2,4) tidy_append [of prev m tail] by simp
    have "length tail < length s" using m(1,2) by simp
    with less.hyps [of tail "Some (last wr)"] t
    have IH: "everywhere numberMarker (Some (last wr)) out" by (simp add: out_def)
    have h: "out = [] \<or> \<not> isSpace (hd out)"
      unfolding out_def using scan_nonspace [OF rewriting_numbered t tl] .
    have "everywhere numberMarker prev ((ds @ ''. '') @ out)"
    proof (rule everywhere_append)
      show "\<forall>ys zs. ds @ ''. '' = ys @ zs \<and> zs \<noteq> []
              \<longrightarrow> numberMarker (lastOr prev ys) (zs @ out)"
      proof (intro allI impI, elim conjE)
        fix ys zs
        assume yz: "ds @ ''. '' = ys @ zs" and zn: "zs \<noteq> []"
        show "numberMarker (lastOr prev ys) (zs @ out)"
        proof (cases "ys = []")
          case True
          with yz have zs: "zs = ds @ ''. ''" by simp
          have "dropWhile isDigit ((ds @ ''. '') @ out) = dropWhile isDigit (''. '' @ out)"
            unfolding append_assoc by (rule dropWhile_append2) (use ds(2) in blast)
          also have "\<dots> = CHR ''.'' # CHR '' '' # out" by (simp add: isDigit_def)
          finally show ?thesis using h unfolding numberMarker_def zs by blast
        next
          case False
          have "\<not> (atWordBoundary (lastOr prev ys) (zs @ out) \<and> isDigit (hd (zs @ out)))"
          proof
            assume a: "atWordBoundary (lastOr prev ys) (zs @ out) \<and> isDigit (hd (zs @ out))"
            with zn have dz: "isDigit (hd zs)" by simp
            from yz obtain us where "(ds = ys @ us \<and> us @ ''. '' = zs)
                \<or> (ds @ us = ys \<and> ''. '' = us @ zs)"
              by (auto simp: append_eq_append_conv2)
            then have "last ys \<in> set ds"
            proof
              assume "ds = ys @ us \<and> us @ ''. '' = zs"
              with False show ?thesis by auto
            next
              assume b: "ds @ us = ys \<and> ''. '' = us @ zs"
              then have "zs = ''. '' \<or> zs = '' ''" using zn
                by (auto simp: Cons_eq_append_conv)
              with dz show ?thesis by (auto simp: isDigit_def)
            qed
            with ds(2) have "isWordChar (last ys)" using digit_wordChar by blast
            moreover have "isWordChar (hd (zs @ out))" using a digit_wordChar by blast
            ultimately have "\<not> atWordBoundary (lastOr prev ys) (zs @ out)"
              using False zn by (cases zs) (simp_all add: atWordBoundary_def lastOr_def)
            with a show False by blast
          qed
          then show ?thesis unfolding numberMarker_def by blast
        qed
      qed
      have "\<not> isWordChar (last wr)" using wr space_not_wordChar by simp
      moreover have "\<not> isWordChar (CHR '' '')" by (simp add: space_not_wordChar isSpace_def)
      ultimately have "numberMarker (Some (CHR '' '')) out"
        using numberMarker_context [OF everywhere_head [OF IH]] by blast
      with IH have "everywhere numberMarker (Some (CHR '' '')) out" by (rule everywhere_context)
      then show "everywhere numberMarker (lastOr prev (ds @ ''. '')) out"
        by (simp add: lastOr_def)
    qed
    then show ?thesis unfolding eq .
  qed
qed

subsection \<open>Strings in canonical form are left as they are\<close>

lemma tidy_position:
  assumes "tidy prev (ys @ zs)"
  shows "tidy (lastOr prev ys) zs"
proof (cases "ys = []")
  case True
  with assms show ?thesis by (simp add: lastOr_def)
next
  case False
  with tidy_append [OF assms] show ?thesis by (simp add: lastOr_def)
qed

lemma takeWhile_space_text: "rest = [] \<or> \<not> isSpace (hd rest) \<Longrightarrow> takeWhile isSpace rest = []"
  by (cases rest) auto

lemma dropWhile_space_text: "rest = [] \<or> \<not> isSpace (hd rest) \<Longrightarrow> dropWhile isSpace rest = rest"
  by (cases rest) auto

lemma heading_settled:
  assumes c: "zs = CHR ''#'' # CHR '' '' # rest" "rest = [] \<or> \<not> isSpace (hd rest)"
    and m: "matchAt reHeading prev zs = Some ms"
  shows "expand [Lit ''# '', Piece 3] ms = concat ms \<and> concat ms \<noteq> []"
proof -
  have sp: "isSpace (CHR '' '')" "\<not> isHash (CHR '' '')" "isHash (CHR ''#'')"
    by (simp_all add: isSpace_def isHash_def)
  have "ms = [[], ''#'', '' '', takeWhile (\<lambda>c. \<not> isLineTerminator c) rest, []]"
    using m unfolding matchAt_heading c(1)
    by (simp add: sp takeWhile_space_text [OF c(2)] dropWhile_space_text [OF c(2)]
        split: if_splits)
  then show ?thesis by simp
qed

lemma heading_fixed:
  assumes "everywhere (lineMarker isHash True (CHR ''#'')) prev s"
  shows "replaceFrom reHeading [Lit ''# '', Piece 3] 0 prev s = s"
proof (rule replaceFrom_fixed, intro allI impI)
  fix ys zs ms
  assume s: "s = ys @ zs" and m: "matchAt reHeading (lastOr prev ys) zs = Some ms"
  from m have "atLineStart (lastOr prev ys) \<and> zs \<noteq> [] \<and> isHash (hd zs)"
    by (simp add: matchAt_heading split: if_splits)
  moreover from assms s have "lineMarker isHash True (CHR ''#'') (lastOr prev ys) zs"
    unfolding everywhere_def by blast
  ultimately obtain rest where "zs = CHR ''#'' # CHR '' '' # rest"
      and "rest = [] \<or> \<not> isSpace (hd rest)"
    unfolding lineMarker_def by blast
  then show "expand [Lit ''# '', Piece 3] ms = concat ms \<and> concat ms \<noteq> []"
    using m by (rule heading_settled)
qed

lemma bullet_fixed:
  assumes "tidy prev s" and "everywhere (lineMarker isBullet False (CHR ''-'')) prev s"
  shows "replaceFrom reBullet [Lit ''- ''] 0 prev s = s"
proof (rule replaceFrom_fixed, intro allI impI)
  fix ys zs ms
  assume s: "s = ys @ zs" and m: "matchAt reBullet (lastOr prev ys) zs = Some ms"
  from m have ls: "atLineStart (lastOr prev ys)" by (simp add: matchAt_bullet split: if_splits)
  have "tidy (lastOr prev ys) zs" using assms(1) unfolding s by (rule tidy_position)
  from tidy_lineStart [OF this ls] have d: "dropWhile isSpace zs = zs" "takeWhile isSpace zs = []"
    by (cases zs; simp)+
  from m ls d obtain x xs where x: "zs = x # xs" "isBullet x" "xs \<noteq> []" "isSpace (hd xs)"
      and ms: "ms = [[], [], [x], takeWhile isSpace xs]"
    by (auto simp: matchAt_bullet split: if_splits list.splits)
  from assms(2) s have "lineMarker isBullet False (CHR ''-'') (lastOr prev ys) zs"
    unfolding everywhere_def by blast
  with ls x obtain rest where r: "zs = CHR ''-'' # CHR '' '' # rest"
      "rest = [] \<or> \<not> isSpace (hd rest)"
    unfolding lineMarker_def by auto
  with x(1) have "x = CHR ''-''" "xs = CHR '' '' # rest" by simp_all
  then have "ms = [[], [], ''-'', '' '']"
    using ms takeWhile_space_text [OF r(2)] by (simp add: isSpace_def)
  then show "expand [Lit ''- ''] ms = concat ms \<and> concat ms \<noteq> []" by simp
qed

lemma numbered_fixed:
  assumes "everywhere numberMarker prev s"
  shows "replaceFrom reNumbered [Piece 1, Lit ''. ''] 0 prev s = s"
proof (rule replaceFrom_fixed, intro allI impI)
  fix ys zs ms
  assume s: "s = ys @ zs" and m: "matchAt reNumbered (lastOr prev ys) zs = Some ms"
  from m obtain xs where c: "atWordBoundary (lastOr prev ys) zs" "zs \<noteq> []" "isDigit (hd zs)"
      and x: "dropWhile isDigit zs = CHR ''.'' # xs" "xs \<noteq> []" "isSpace (hd xs)"
      and ms: "ms = [[], takeWhile isDigit zs, ''.'', takeWhile isSpace xs]"
    by (auto simp: matchAt_numbered split: if_splits list.splits)
  from assms s have "numberMarker (lastOr prev ys) zs" unfolding everywhere_def by blast
  with c x obtain rest where r: "dropWhile isDigit zs = CHR ''.'' # CHR '' '' # rest"
      "rest = [] \<or> \<not> isSpace (hd rest)"
    unfolding numberMarker_def by blast
  with x(1) have "xs = CHR '' '' # rest" by simp
  then have "takeWhile isSpace xs = '' ''"
    using takeWhile_space_text [OF r(2)] by (simp add: isSpace_def)
  moreover have "takeWhile isDigit zs \<noteq> []" using c(2,3) by (cases zs) auto
  ultimately show "expand [Piece 1, Lit ''. ''] ms = concat ms \<and> concat ms \<noteq> []"
    using ms by simp
qed

lemma matchAt_newlines2:
  assumes "matchAt reNewlines2 prev s \<noteq> None"
  shows "\<exists>zs. s = LF # LF # zs"
proof -
  have "inClass (Chr LF) = (\<lambda>c. c = LF)" by (rule ext) simp
  with assms have "2 \<le> length (takeWhile (\<lambda>c. c = LF) s)"
    unfolding matchAt_def reNewlines2_def list.map matchSeq_single_rep
    by (simp add: firstSome_single split: if_splits)
  then obtain a b w where w: "takeWhile (\<lambda>c. c = LF) s = a # b # w"
    by (cases "takeWhile (\<lambda>c. c = LF) s"; cases "tl (takeWhile (\<lambda>c. c = LF) s)") auto
  then have "a = LF" "b = LF"
    by (metis list.set_intros(1) set_takeWhileD, metis list.set_intros(1,2) set_takeWhileD)
  moreover have "s = (a # b # w) @ dropWhile (\<lambda>c. c = LF) s"
    using w by (metis takeWhile_dropWhile_id)
  ultimately have "s = LF # LF # (w @ dropWhile (\<lambda>c. c = LF) s)" by simp
  then show ?thesis by (rule exI)
qed

lemma newlines2_fixed:
  assumes "tidy None s"
  shows "replaceAll reNewlines2 r s = s"
  unfolding replaceAll_def
proof (rule replaceFrom_no_match_anywhere, intro allI impI, rule ccontr)
  fix ys zs assume s: "s = ys @ zs" and m: "matchAt reNewlines2 (lastOr None ys) zs \<noteq> None"
  from matchAt_newlines2 [OF m] obtain t where "zs = LF # LF # t" by blast
  with s assms have "successively isolated (ys @ LF # LF # t)" by (simp add: tidy_def ctx_def)
  then have "successively isolated (LF # LF # t)" unfolding successively_append_iff by blast
  then show False by (simp add: isolated_def isLineTerminator_def isSpace_def)
qed

text \<open>A tidy string whose markers are canonical is a fixed point of the four replacements.\<close>

lemma canonical_fixed:
  assumes "tidy None s"
    and "everywhere (lineMarker isHash True (CHR ''#'')) None s"
    and "everywhere (lineMarker isBullet False (CHR ''-'')) None s"
    and "everywhere numberMarker None s"
  shows "replaceAll reHeading [Lit ''# '', Piece 3] s = s"
    and "replaceAll reNewlines2 [Lit [LF, LF]] s = s"
    and "replaceAll reBullet [Lit ''- ''] s = s"
    and "replaceAll reNumbered [Piece 1, Lit ''. ''] s = s"
  using heading_fixed [OF assms(2)] newlines2_fixed [OF assms(1)]
    bullet_fixed [OF assms(1,3)] numbered_fixed [OF assms(4)]
  by (simp_all add: replaceAll_def)

subsection \<open>The result of \<open>convertToMarkdown\<close> before its \<open>trim\<close>\<close>

lemma edged_tidy:
  assumes "edged s" and "singleBlanks s"
  shows "tidy None s" and "trailing None s"
  using assms by (auto simp: edged_def singleBlanks_def tidy_def trailing_def ctx_def)

lemma tidy_edged:
  assumes "tidy None s" and "s = [] \<or> \<not> isSpace (last s)"
  shows "edged s" and "singleBlanks s"
  using assms by (auto simp: edged_def singleBlanks_def tidy_def ctx_def)

lemma markdown_scans:
  assumes "edged p" and "singleBlanks p"
  defines "n \<equiv> replaceAll reNumbered [Piece 1, Lit ''. '']
                 (replaceAll reBullet [Lit ''- '']
                   (replaceAll reNewlines2 [Lit [LF, LF]]
                     (replaceAll reHeading [Lit ''# '', Piece 3] p)))"
  shows "tidy None n" and "trailing None n"
    and "everywhere (lineMarker isHash True (CHR ''#'')) None n"
    and "everywhere (lineMarker isBullet False (CHR ''-'')) None n"
    and "everywhere numberMarker None n"
proof -
  let ?h = "replaceFrom reHeading [Lit ''# '', Piece 3] 0 None p"
  let ?b = "replaceFrom reBullet [Lit ''- ''] 0 None ?h"
  let ?n = "replaceFrom reNumbered [Piece 1, Lit ''. ''] 0 None ?b"
  note p = edged_tidy [OF assms(1,2)]
  have h: "tidy None ?h" "trailing None ?h"
    "everywhere (lineMarker isHash True (CHR ''#'')) None ?h"
    using scan_tidy [OF rewriting_heading p(1)]
      scan_trailing [OF rewriting_heading p(1,2)] heading_lineMarker [OF p(1)]
    by blast+
  have b: "tidy None ?b" "trailing None ?b"
    "everywhere (lineMarker isHash True (CHR ''#'')) None ?b"
    "everywhere (lineMarker isBullet False (CHR ''-'')) None ?b"
    using scan_tidy [OF rewriting_bullet h(1)] scan_trailing [OF rewriting_bullet h(1,2)]
      hash_kept_by_bullet [OF h(1,3)] bullet_lineMarker [OF h(1)]
    by blast+
  have n: "n = ?n"
    unfolding n_def using newlines2_fixed [OF h(1), of "[Lit [LF, LF]]"]
    by (simp add: replaceAll_def)
  show "tidy None n" unfolding n by (rule scan_tidy [OF rewriting_numbered b(1)])
  show "trailing None n" unfolding n by (rule scan_trailing [OF rewriting_numbered b(1,2)])
  show "everywhere (lineMarker isHash True (CHR ''#'')) None n"
    unfolding n by (rule hash_kept_by_numbered [OF b(1,3)])
  show "everywhere (lineMarker isBullet False (CHR ''-'')) None n"
    unfolding n by (rule bullet_kept_by_numbered [OF b(1,4)])
  show "everywhere numberMarker None n"
    unfolding n by (rule numbered_numberMarker [OF b(1)])
qed

lemma trim_trailing:
  assumes "tidy None n" and "trailing None n"
  shows "trim n = n \<or> (\<exists>m. n = m @ ''# '' \<and> trim n = m @ ''#'')"
proof (cases "n = [] \<or> \<not> isSpace (last n)")
  case True
  then have "edged n" by (rule tidy_edged(1) [OF assms(1)])
  then show ?thesis using edged_trim by blast
next
  case False
  with assms(2) obtain m where m: "n = m @ ''# ''" by (auto simp: trailing_def ctx_def)
  from assms(1) False have "\<not> isSpace (hd n)" by (simp add: tidy_def)
  then have "dropWhile isSpace n = n" using False by (cases n) auto
  then have "trim n = rev (dropWhile isSpace (rev n))" by (simp add: trim_def)
  also have "\<dots> = m @ ''#''" unfolding m by (simp add: isSpace_def)
  finally show ?thesis using m by blast
qed

subsection \<open>Canonical markers in a prefix\<close>

lemma lineMarker_prefix:
  assumes "everywhere (lineMarker K False k0) prev (a @ b)"
  shows "everywhere (lineMarker K False k0) prev a"
  unfolding everywhere_def
proof (intro allI impI)
  fix ys zs
  assume a: "a = ys @ zs"
  then have "a @ b = ys @ (zs @ b)" by simp
  with assms have l: "lineMarker K False k0 (lastOr prev ys) (zs @ b)"
    unfolding everywhere_def by blast
  show "lineMarker K False k0 (lastOr prev ys) zs"
    unfolding lineMarker_def
  proof
    assume tr: "atLineStart (lastOr prev ys) \<and> zs \<noteq> [] \<and> K (hd zs)
                \<and> (False \<or> (tl zs \<noteq> [] \<and> isSpace (hd (tl zs))))"
    then obtain x y zs' where zs: "zs = x # y # zs'" by (cases zs; cases "tl zs") auto
    with tr l obtain rest where r: "x # y # zs' @ b = k0 # CHR '' '' # rest"
        "rest = [] \<or> \<not> isSpace (hd rest)"
      unfolding lineMarker_def by auto
    then have "zs = k0 # CHR '' '' # zs'" and "zs' = [] \<or> \<not> isSpace (hd zs')"
      using zs by (cases zs'; auto)+
    then show "\<exists>rest. zs = k0 # CHR '' '' # rest \<and> (rest = [] \<or> \<not> isSpace (hd rest))"
      by blast
  qed
qed

lemma numberMarker_prefix:
  assumes "everywhere numberMarker prev (a @ b)"
  shows "everywhere numberMarker prev a"
  unfolding everywhere_def
proof (intro allI impI)
  fix ys zs
  assume a: "a = ys @ zs"
  then have "a @ b = ys @ (zs @ b)" by simp
  with assms have l: "numberMarker (lastOr prev ys) (zs @ b)"
    unfolding everywhere_def by blast
  show "numberMarker (lastOr prev ys) zs"
    unfolding numberMarker_def
  proof
    assume tr: "atWordBoundary (lastOr prev ys) zs \<and> zs \<noteq> [] \<and> isDigit (hd zs)
      \<and> (\<exists>xs. dropWhile isDigit zs = CHR ''.'' # xs \<and> xs \<noteq> [] \<and> isSpace (hd xs))"
    then obtain xs where xs: "dropWhile isDigit zs = CHR ''.'' # xs" "xs \<noteq> []" "isSpace (hd xs)"
      by blast
    have d: "dropWhile isDigit (zs @ b) = CHR ''.'' # xs @ b"
    proof -
      have "zs = takeWhile isDigit zs @ CHR ''.'' # xs" using xs(1) by (metis takeWhile_dropWhile_id)
      then have "zs @ b = takeWhile isDigit zs @ (CHR ''.'' # xs @ b)" by (metis append.assoc append_Cons)
      then have "dropWhile isDigit (zs @ b) = dropWhile isDigit (CHR ''.'' # xs @ b)"
        using dropWhile_append2 [of "takeWhile isDigit zs" isDigit "CHR ''.'' # xs @ b"]
          set_takeWhileD [of _ isDigit zs] by metis
      then show ?thesis by (simp add: isDigit_def)
    qed
    from tr have "atWordBoundary (lastOr prev ys) (zs @ b)"
      using atWordBoundary_head [of zs "zs @ b"] by simp
    moreover from tr have "zs @ b \<noteq> [] \<and> isDigit (hd (zs @ b))" by simp
    moreover have "\<exists>xs'. dropWhile isDigit (zs @ b) = CHR ''.'' # xs' \<and> xs' \<noteq> [] \<and> isSpace (hd xs')"
      using d xs(2,3) by simp
    ultimately obtain rest where r: "dropWhile isDigit (zs @ b) = CHR ''.'' # CHR '' '' # rest"
        "rest = [] \<or> \<not> isSpace (hd rest)"
      using l unfolding numberMarker_def by blast
    with d have e: "xs @ b = CHR '' '' # rest" by simp
    with xs(2) obtain xs' where x': "xs = CHR '' '' # xs'" "rest = xs' @ b" by (cases xs) auto
    with r(2) have "xs' = [] \<or> \<not> isSpace (hd xs')" by (cases xs') auto
    with xs(1) x'(1)
    show "\<exists>rest. dropWhile isDigit zs = CHR ''.'' # CHR '' '' # rest
                  \<and> (rest = [] \<or> \<not> isSpace (hd rest))"
      by blast
  qed
qed

subsection \<open>The second application of \<open>convertToMarkdown\<close>\<close>

lemma replaceFrom_fixed_upto:
  assumes "everywhere (\<lambda>p z. \<forall>ms. matchAt re p z = Some ms \<longrightarrow>
              (expand r ms = concat ms \<and> concat ms \<noteq> [])
              \<or> (z \<noteq> [] \<and> concat ms = z \<and> expand r ms = z @ e)) prev s"
  shows "replaceFrom re r 0 prev s = s \<or> replaceFrom re r 0 prev s = s @ e"
  using assms
proof (induction "length s" arbitrary: s prev rule: less_induct)
  case less
  let ?Q = "\<lambda>p z. \<forall>ms. matchAt re p z = Some ms \<longrightarrow>
              (expand r ms = concat ms \<and> concat ms \<noteq> [])
              \<or> (z \<noteq> [] \<and> concat ms = z \<and> expand r ms = z @ e)"
  show ?case
  proof (cases "matchAt re prev s")
    case None
    show ?thesis
    proof (cases s)
      case Nil
      with None show ?thesis by simp
    next
      case (Cons c cs)
      have "everywhere ?Q (lastOr prev [c]) cs"
        using less.prems Cons everywhere_suffix [of ?Q prev "[c]" cs] by simp
      then have "everywhere ?Q (Some c) cs" by (simp add: lastOr_def)
      with less.hyps [of cs "Some c"] Cons
      have "replaceFrom re r 0 (Some c) cs = cs \<or> replaceFrom re r 0 (Some c) cs = cs @ e"
        by simp
      moreover have "replaceFrom re r 0 prev s = c # replaceFrom re r 0 (Some c) cs"
        unfolding Cons using None [unfolded Cons] by (rule replaceFrom_nomatch)
      ultimately show ?thesis using Cons by auto
    qed
  next
    case (Some ms)
    define m where "m = concat ms"
    from everywhere_head [OF less.prems] Some
    have f: "(expand r ms = m \<and> m \<noteq> []) \<or> (s \<noteq> [] \<and> m = s \<and> expand r ms = s @ e)"
      unfolding m_def by blast
    then have mn: "m \<noteq> []" by blast
    from matchAt_concat [OF Some] obtain tail where t: "s = m @ tail"
      unfolding m_def by blast
    have len: "length (concat ms) = length m" by (simp add: m_def)
    have n: "0 < length m" "length m \<le> length s" using mn t by simp_all
    have d: "drop (length m) s = tail" using t by simp
    have l: "s ! (length m - 1) = last m" using mn t by (simp add: nth_append last_conv_nth)
    have step: "replaceFrom re r 0 prev s = expand r ms @ replaceFrom re r 0 (Some (last m)) tail"
      using replaceFrom_match [OF Some len n, of r] unfolding d l .
    have "everywhere ?Q prev (m @ tail)" using less.prems unfolding t .
    then have "everywhere ?Q (lastOr prev m) tail" by (rule everywhere_suffix)
    then have q: "everywhere ?Q (Some (last m)) tail" using mn by (simp add: lastOr_def)
    have "length tail < length s" using t n(1) by simp
    with less.hyps [of tail "Some (last m)"] q
    have IH: "replaceFrom re r 0 (Some (last m)) tail = tail
              \<or> replaceFrom re r 0 (Some (last m)) tail = tail @ e" by blast
    from f show ?thesis
    proof
      assume "expand r ms = m \<and> m \<noteq> []"
      with step IH t show ?thesis by auto
    next
      assume a: "s \<noteq> [] \<and> m = s \<and> expand r ms = s @ e"
      with t have tl: "tail = []" by simp
      have "matchAt re (Some (last m)) [] = None"
      proof (rule ccontr)
        assume "matchAt re (Some (last m)) [] \<noteq> None"
        then obtain ms' where ms': "matchAt re (Some (last m)) [] = Some ms'" by blast
        from matchAt_concat [OF this] have "concat ms' = []" by simp
        moreover from everywhere_head [OF q] tl ms'
        have "(expand r ms' = concat ms' \<and> concat ms' \<noteq> [])
              \<or> ([] \<noteq> ([] :: string) \<and> concat ms' = [] \<and> expand r ms' = [] @ e)" by blast
        ultimately show False by blast
      qed
      then have "replaceFrom re r 0 (Some (last m)) [] = []" by simp
      with step tl a show ?thesis by simp
    qed
  qed
qed

lemma heading_before_last_space:
  assumes "everywhere (lineMarker isHash True (CHR ''#'')) None (m @ '' '')"
  shows "replaceAll reHeading [Lit ''# '', Piece 3] m = m
         \<or> replaceAll reHeading [Lit ''# '', Piece 3] m = m @ '' ''"
  unfolding replaceAll_def
proof (rule replaceFrom_fixed_upto, unfold everywhere_def, intro allI impI)
  fix ys zs ms
  assume s: "m = ys @ zs" and ma: "matchAt reHeading (lastOr None ys) zs = Some ms"
  from ma have c: "atLineStart (lastOr None ys)" "zs \<noteq> []" "isHash (hd zs)"
    by (simp_all add: matchAt_heading split: if_splits)
  from s have "m @ '' '' = ys @ (zs @ '' '')" by simp
  with assms have "lineMarker isHash True (CHR ''#'') (lastOr None ys) (zs @ '' '')"
    unfolding everywhere_def by blast
  with c obtain rest where r: "zs @ '' '' = CHR ''#'' # CHR '' '' # rest"
      "rest = [] \<or> \<not> isSpace (hd rest)"
    unfolding lineMarker_def by auto
  from c(2) obtain x zs' where zs: "zs = x # zs'" by (cases zs) auto
  with r(1) have x: "x = CHR ''#''" and e: "zs' @ '' '' = CHR '' '' # rest" by simp_all
  show "(expand [Lit ''# '', Piece 3] ms = concat ms \<and> concat ms \<noteq> [])
        \<or> (zs \<noteq> [] \<and> concat ms = zs \<and> expand [Lit ''# '', Piece 3] ms = zs @ '' '')"
  proof (cases zs')
    case Nil
    with zs x have z: "zs = ''#''" by simp
    have "ms = [[], ''#'', [], [], []]"
      using ma unfolding z matchAt_heading by (simp add: isHash_def split: if_splits)
    then show ?thesis using z by simp
  next
    case (Cons y zs'')
    with e have y: "y = CHR '' ''" and rest: "rest = zs'' @ '' ''" by simp_all
    have "zs'' \<noteq> []" using r(2) rest by (auto simp: isSpace_def)
    with r(2) rest have "\<not> isSpace (hd zs'')" by simp
    then have "zs'' = [] \<or> \<not> isSpace (hd zs'')" by simp
    moreover have "zs = CHR ''#'' # CHR '' '' # zs''" using zs x Cons y by simp
    ultimately show ?thesis using heading_settled [OF _ _ ma] by blast
  qed
qed

lemma convertToMarkdown_again:
  assumes "edged p" and "singleBlanks p"
  shows "convertToMarkdown (normalize (convertToMarkdown p)) = convertToMarkdown p"
proof -
  define n where "n = replaceAll reNumbered [Piece 1, Lit ''. '']
                 (replaceAll reBullet [Lit ''- '']
                   (replaceAll reNewlines2 [Lit [LF, LF]]
                     (replaceAll reHeading [Lit ''# '', Piece 3] p)))"
  have c: "convertToMarkdown p = trim n" by (simp add: convertToMarkdown_def n_def)
  note n = markdown_scans [OF assms, folded n_def]
  note fx = canonical_fixed [OF n(1,3,4,5)]
  have whole: "convertToMarkdown n = trim n"
    unfolding convertToMarkdown_def fx ..
  from trim_trailing [OF n(1,2)] show ?thesis
  proof
    assume t: "trim n = n"
    then have "n = [] \<or> \<not> isSpace (last n)" using trim_last [of n] by auto
    from tidy_edged [OF n(1) this] have "normalize n = n" by (rule normalize_fixed)
    then show ?thesis unfolding c t using whole t by simp
  next
    assume "\<exists>m. n = m @ ''# '' \<and> trim n = m @ ''#''"
    then obtain m where m: "n = m @ ''# ''" "trim n = m @ ''#''" by blast
    define M where "M = m @ ''#''"
    have nM: "n = M @ '' ''" and tM: "trim n = M" using m by (simp_all add: M_def)
    have tidy: "tidy None M" using n(1) unfolding nM by (rule tidy_prefix)
    have "M = [] \<or> \<not> isSpace (last M)" by (simp add: M_def isSpace_def)
    note e = tidy_edged [OF tidy this]
    have norm: "normalize M = M" using e by (rule normalize_fixed)
    have b: "everywhere (lineMarker isBullet False (CHR ''-'')) None M"
      using n(4) unfolding nM by (rule lineMarker_prefix)
    have d: "everywhere numberMarker None M"
      using n(5) unfolding nM by (rule numberMarker_prefix)
    have "convertToMarkdown M = M"
      using heading_before_last_space [OF n(3) [unfolded nM]]
    proof
      assume h: "replaceAll reHeading [Lit ''# '', Piece 3] M = M"
      have "convertToMarkdown M = trim M"
        unfolding convertToMarkdown_def h newlines2_fixed [OF tidy]
        using bullet_fixed [OF tidy b] numbered_fixed [OF d] by (simp add: replaceAll_def)
      then show ?thesis using edged_trim [OF e(1)] by simp
    next
      assume h: "replaceAll reHeading [Lit ''# '', Piece 3] M = M @ '' ''"
      have "convertToMarkdown M = trim n"
        unfolding convertToMarkdown_def h nM [symmetric] fx(2,3,4) ..
      then show ?thesis using tM by simp
    qed
    then show ?thesis unfolding c tM norm .
  qed
qed

lemma localProcessing_markdown_idempotent:
  "localProcessing (localProcessing t ''markdown'') ''markdown'' = localProcessing t ''markdown''"
proof -
  have "edged (normalize t)" and "singleBlanks (normalize t)"
    using normalize_shape [of t] by blast+
  then show ?thesis
    unfolding localProcessing_def using convertToMarkdown_again by simp
qed

subsection \<open>Idempotence of the local transform\<close>

text \<open>
  Claim C6, as the code has it. For every input and every output format other than \<open>html\<close>
  (\<open>markdown\<close> included), the local transform is idempotent. For \<open>html\<close> it is not: the
  markup of the first application is wrapped again by the second.
\<close>

theorem localProcessing_idempotent:
  assumes "format \<noteq> ''html''"
  shows "localProcessing (localProcessing t format) format = localProcessing t format"
proof (cases "format = ''markdown''")
  case True
  then show ?thesis by (simp only: localProcessing_markdown_idempotent)
next
  case False
  with assms show ?thesis by (simp add: localProcessing_def normalize_idempotent)
qed

theorem localProcessing_idempotent_witness:
  "localProcessing (localProcessing (''##  Title'' @ [CR, LF, LF, LF] @ ''*   item 1.  x '') ''markdown'')
       ''markdown''
     = localProcessing (''##  Title'' @ [CR, LF, LF, LF] @ ''*   item 1.  x '') ''markdown''"
  using localProcessing_idempotent
    [of "''markdown''" "''##  Title'' @ [CR, LF, LF, LF] @ ''*   item 1.  x ''"]
  by simp

theorem localProcessing_idempotent_counterexample:
  "localProcessing ''a'' ''html'' = ''<p>a</p>'' @ [LF]
   \<and> localProcessing (localProcessing ''a'' ''html'') ''html'' = ''<p><p>a</p></p>'' @ [LF]
   \<and> localProcessing (localProcessing ''a'' ''html'') ''html'' \<noteq> localProcessing ''a'' ''html''"
proof -
  have 1: "localProcessing ''a'' ''html'' = ''<p>a</p>'' @ [LF]" by code_simp
  have 2: "localProcessing (''<p>a</p>'' @ [LF]) ''html'' = ''<p><p>a</p></p>'' @ [LF]"
    by code_simp
  show ?thesis unfolding 1 2 by simp
qed

end
